theory Spec2Isabelle
  imports Main
begin

section \<open>Python primitives used by the branch builder\<close>

text \<open>
  The exceptions the modelled code can raise. \<open>ValueError\<close> is what \<open>list.index\<close> raises
  when the element is absent, \<open>TypeError\<close> what unpacking a non-tuple raises and
  \<open>KeyError\<close> what a dictionary lookup of an absent key raises.
  \<open>ConflictNotFoundError\<close> is the error kind the specification names; the source defines
  no such class and no path of it raises one.
\<close>

datatype error = ValueError | TypeError | KeyError | ConflictNotFoundError

text \<open>\<open>xs.index(x)\<close>: the position of the first element equal to \<open>x\<close>, \<open>None\<close> for ValueError.\<close>

fun index_of :: "'a \<Rightarrow> 'a list \<Rightarrow> nat option" where
  "index_of x [] = None"
| "index_of x (y # ys) = (if y = x then Some 0 else map_option Suc (index_of x ys))"

text \<open>\<open>s.startswith(p)\<close>.\<close>

definition startswith :: "string \<Rightarrow> string \<Rightarrow> bool" where
  "startswith s p = (take (length p) s = p)"

text \<open>\<open>sub in s\<close> on strings: \<open>sub\<close> occurs in \<open>s\<close> as a contiguous substring.\<close>

fun py_in :: "string \<Rightarrow> string \<Rightarrow> bool" where
  "py_in sub [] = (sub = [])"
| "py_in sub (c # cs) = (startswith (c # cs) sub \<or> py_in sub cs)"

text \<open>
  \<open>s.replace(old, new)\<close> for a non-empty \<open>old\<close> (the three operator tokens are non-empty):
  every non-overlapping occurrence, scanning from the left.
\<close>

fun replace :: "string \<Rightarrow> string \<Rightarrow> string \<Rightarrow> string" where
  "replace old new [] = []"
| "replace old new (c # cs) =
     (if startswith (c # cs) old then new @ replace old new (drop (length old - 1) cs)
      else c # replace old new cs)"

text \<open>\<open>s.split(sep)\<close> for a one-character separator: never the empty list.\<close>

fun split :: "char \<Rightarrow> string \<Rightarrow> string list" where
  "split sep [] = [[]]"
| "split sep (c # cs) =
     (if c = sep then [] # split sep cs
      else (case split sep cs of [] \<Rightarrow> [[c]] | w # ws \<Rightarrow> (c # w) # ws))"

section \<open>Data model\<close>

text \<open>
  A dimension is an external type: a name and a declaration (prior and shape), equal to
  another dimension exactly when both agree. A space is the dictionary from names to
  dimensions, kept in iteration order.
\<close>

record 'd dimension =
  name :: string
  decl :: 'd

type_synonym 'd space = "(string \<times> 'd dimension) list"

definition space_values :: "'d space \<Rightarrow> 'd dimension list" where
  "space_values sp = map snd sp"

definition space_contains :: "string \<Rightarrow> 'd space \<Rightarrow> bool" where
  "space_contains n sp = (n \<in> set (map fst sp))"

text \<open>
  What the external space builder guarantees of a built space: it registers every
  dimension under its own name, and a dictionary has no two entries with one key.
\<close>

definition wf_space :: "'d space \<Rightarrow> bool" where
  "wf_space sp = (distinct (map fst sp) \<and> (\<forall>e \<in> set sp. name (snd e) = fst e))"

text \<open>The three status strings \<open>'new'\<close>, \<open>'changed'\<close> and \<open>'missing'\<close>.\<close>

datatype status = New | Changed | Missing

fun status_name :: "status \<Rightarrow> string" where
  "status_name New = ''new''"
| "status_name Changed = ''changed''"
| "status_name Missing = ''missing''"

text \<open>\<open>class Conflict\<close>: \<open>__init__\<close> sets \<open>is_solved = False\<close>.\<close>

record 'd conflict =
  is_solved :: bool
  dimension :: "'d dimension"
  status :: status

definition Conflict :: "status \<Rightarrow> 'd dimension \<Rightarrow> 'd conflict" where
  "Conflict s d = \<lparr>is_solved = False, dimension = d, status = s\<rparr>"

text \<open>
  Conflict objects are compared by identity (the class defines no \<open>__eq__\<close>), and the
  ledger holds references to them. A reference is the position of the conflict in
  \<open>self.conflicts\<close>, a list that only grows during \<open>_find_conflicts\<close>. An operation payload
  is one conflict (\<open>add\<close>, \<open>remove\<close>) or the tuple \<open>(old, new)\<close> (\<open>rename\<close>).
\<close>

datatype payload = Single nat | Tuple nat nat

type_synonym ledger = "(string \<times> payload list) list"

record 'd builder =
  experiment_space :: "'d space"
  conflicting_space :: "'d space"
  conflicts :: "'d conflict list"
  operations :: ledger

text \<open>The payloads queued under one operation kind (none when the key is absent).\<close>

definition entries :: "ledger \<Rightarrow> string \<Rightarrow> payload list" where
  "entries ops k = (case map_of ops k of None \<Rightarrow> [] | Some l \<Rightarrow> l)"

section \<open>Conflict detection\<close>

text \<open>
  \<open>_find_conflicts\<close>: the candidate (conflicting) space first, then the parent
  (experiment) space. \<open>dim not in self.experiment_space.values()\<close> compares \<open>dim\<close> with
  every dimension of the parent space.
\<close>

definition find_conflicts :: "'d space \<Rightarrow> 'd space \<Rightarrow> 'd conflict list" where
  "find_conflicts exp_space conf_space =
     concat (map (\<lambda>dim.
        if space_contains (name dim) exp_space
        then (if dim \<notin> set (space_values exp_space) then [Conflict Changed dim] else [])
        else [Conflict New dim]) (space_values conf_space))
     @ concat (map (\<lambda>dim.
        if \<not> space_contains (name dim) conf_space then [Conflict Missing dim] else [])
        (space_values exp_space))"

section \<open>Filtering and lookup\<close>

text \<open>
  The \<open>status\<close> argument of the filters is a list of status strings, except in
  \<open>rename_dimension\<close>, which passes a bare string: \<open>c.status in status\<close> is then a
  substring test.
\<close>

datatype status_arg = StatusList "status list" | StatusStr string

fun status_in :: "status \<Rightarrow> status_arg \<Rightarrow> bool" where
  "status_in s (StatusList l) = (s \<in> set l)"
| "status_in s (StatusStr t) = py_in (status_name s) t"

text \<open>\<open>filter_conflicts\<close>: the references of the conflicts that satisfy the predicate, in order.\<close>

definition filter_conflicts :: "('d conflict \<Rightarrow> bool) \<Rightarrow> 'd conflict list \<Rightarrow> nat list" where
  "filter_conflicts f cs = filter (\<lambda>i. f (cs ! i)) [0..<length cs]"

definition filter_conflicts_with_status :: "status_arg \<Rightarrow> 'd conflict list \<Rightarrow> nat list" where
  "filter_conflicts_with_status st cs = filter_conflicts (\<lambda>c. status_in (status c) st) cs"

definition filter_conflicts_with_solved_state :: "bool \<Rightarrow> 'd conflict list \<Rightarrow> nat list" where
  "filter_conflicts_with_solved_state wants_solved cs =
     filter_conflicts (\<lambda>c. is_solved c = wants_solved) cs"

text \<open>\<open>_assert_has_status\<close>: \<open>list.index\<close> raises ValueError when no name matches.\<close>

definition assert_has_status ::
  "string \<Rightarrow> status_arg \<Rightarrow> 'd conflict list \<Rightarrow> error + (nat \<times> nat list)" where
  "assert_has_status nm st cs =
     (let prefixed_name = CHR ''/'' # nm;
          found = filter_conflicts_with_status st cs
      in case index_of prefixed_name (map (\<lambda>i. name (dimension (cs ! i))) found) of
           None \<Rightarrow> Inl ValueError
         | Some idx \<Rightarrow> Inr (idx, found))"

text \<open>\<open>_mark_as\<close>: returns the conflict (its reference) and the builder with the flag set.\<close>

definition mark_as ::
  "string \<Rightarrow> status_arg \<Rightarrow> bool \<Rightarrow> 'd builder \<Rightarrow> error + (nat \<times> 'd builder)" where
  "mark_as nm st solved b =
     (case assert_has_status nm st (conflicts b) of
        Inl e \<Rightarrow> Inl e
      | Inr (idx, found) \<Rightarrow>
          (let c = found ! idx
           in Inr (c, b\<lparr>conflicts := (conflicts b)[c := (conflicts b ! c)\<lparr>is_solved := solved\<rparr>]\<rparr>)))"

definition mark_as_solved :: "string \<Rightarrow> status_arg \<Rightarrow> 'd builder \<Rightarrow> error + (nat \<times> 'd builder)" where
  "mark_as_solved nm st b = mark_as nm st True b"

section \<open>Name expansion\<close>

definition special_keywords :: "string \<Rightarrow> status option" where
  "special_keywords = [''~new'' \<mapsto> New, ''~changed'' \<mapsto> Changed, ''~missing'' \<mapsto> Missing]"

text \<open>
  \<open>_extend_special_keywords\<close> and \<open>_extend_wildcard\<close> return the extended list. The
  first is called for a key of \<open>special_keywords\<close> only. \<open>name[1:]\<close> is \<open>tl\<close>, and
  \<open>arg.split('*')[0]\<close> the head of a list that is never empty.
\<close>

definition extend_special_keywords :: "string \<Rightarrow> string list \<Rightarrow> 'd conflict list \<Rightarrow> string list" where
  "extend_special_keywords arg names cs =
     (case special_keywords arg of
        None \<Rightarrow> names
      | Some s \<Rightarrow> names @ map (\<lambda>i. tl (name (dimension (cs ! i))))
                               (filter_conflicts_with_status (StatusList [s]) cs))"

definition extend_wildcard ::
  "string \<Rightarrow> string list \<Rightarrow> status_arg \<Rightarrow> 'd conflict list \<Rightarrow> string list" where
  "extend_wildcard arg names st cs =
     (let prefix = CHR ''/'' # hd (split (CHR ''*'') arg)
      in names @ map (\<lambda>i. tl (name (dimension (cs ! i))))
                     (filter_conflicts
                        (\<lambda>c. startswith (name (dimension c)) prefix \<and> status_in (status c) st) cs))"

text \<open>
  The loop of \<open>_get_names\<close>: a keyword or a wildcard extends \<open>names\<close>, a literal
  assigns \<open>names = [arg]\<close>.
\<close>

fun get_names_loop ::
  "'d conflict list \<Rightarrow> status_arg \<Rightarrow> string list \<Rightarrow> string list \<Rightarrow> string list" where
  "get_names_loop cs st names [] = names"
| "get_names_loop cs st names (arg # args) =
     get_names_loop cs st
       (if arg \<in> dom special_keywords then extend_special_keywords arg names cs
        else if CHR ''*'' \<in> set arg then extend_wildcard arg names st cs
        else [arg])
       args"

definition get_names :: "string \<Rightarrow> status_arg \<Rightarrow> 'd conflict list \<Rightarrow> string list" where
  "get_names nm st cs = get_names_loop cs st [] (split (CHR '' '') nm)"

section \<open>The operation ledger\<close>

text \<open>
  \<open>conflict.is_solved = v\<close> on the conflict behind a reference. Every reference the code
  holds is the position of a conflict of the list.
\<close>

definition set_solved :: "nat \<Rightarrow> bool \<Rightarrow> 'd conflict list \<Rightarrow> 'd conflict list" where
  "set_solved c v cs = cs[c := (cs ! c)\<lparr>is_solved := v\<rparr>]"

text \<open>
  \<open>_put_operation\<close> on the ordered dictionary \<open>self.operations\<close>: an absent key is
  created with an empty list (at the end of the dictionary), then the payload is appended
  to the list of the key unless the list already holds it.
\<close>

fun put_operation :: "string \<Rightarrow> payload \<Rightarrow> ledger \<Rightarrow> ledger" where
  "put_operation operation_name args [] = [(operation_name, [] @ [args])]"
| "put_operation operation_name args ((k, l) # rest) =
     (if k = operation_name then (k, if args \<notin> set l then l @ [args] else l) # rest
      else (k, l) # put_operation operation_name args rest)"

text \<open>
  The \<open>rename\<close> branch of \<open>_remove_from_operations\<close>: a \<open>for\<close> loop over the list it
  removes from. The list iterator holds a position \<open>i\<close>: it reads the element at \<open>i\<close> of
  the list as it is now and stops when \<open>i\<close> reaches the current length.
  Unpacking \<open>old, new = value\<close> raises TypeError on a single conflict.
\<close>

function rename_loop ::
  "nat \<Rightarrow> nat \<Rightarrow> 'd conflict list \<Rightarrow> payload list \<Rightarrow> error + ('d conflict list \<times> payload list)" where
  "rename_loop arg i cs l =
     (if i < length l then
        (case l ! i of
           Single c \<Rightarrow> Inl TypeError
         | Tuple old new \<Rightarrow>
             if arg = old \<or> arg = new
             then rename_loop arg (Suc i) (set_solved new False (set_solved old False cs))
                    (remove1 (l ! i) l)
             else rename_loop arg (Suc i) cs l)
      else Inr (cs, l))"
  by pat_completeness auto
termination
  by (relation "measure (\<lambda>(arg, i, cs, l). length l - i)") (auto simp: length_remove1)

declare rename_loop.simps [simp del]

text \<open>\<open>_remove_from_operations\<close>: over the kinds of the ledger, in dictionary order.\<close>

fun remove_from_operations ::
  "nat \<Rightarrow> 'd conflict list \<Rightarrow> ledger \<Rightarrow> error + ('d conflict list \<times> ledger)" where
  "remove_from_operations arg cs [] = Inr (cs, [])"
| "remove_from_operations arg cs ((operation, l) # rest) =
     (if operation = ''rename'' then
        (case rename_loop arg 0 cs l of
           Inl e \<Rightarrow> Inl e
         | Inr (cs1, l1) \<Rightarrow>
             (case remove_from_operations arg cs1 rest of
                Inl e \<Rightarrow> Inl e
              | Inr (cs2, rest1) \<Rightarrow> Inr (cs2, (operation, l1) # rest1)))
      else if Single arg \<in> set l then
        (case remove_from_operations arg (set_solved arg False cs) rest of
           Inl e \<Rightarrow> Inl e
         | Inr (cs2, rest1) \<Rightarrow> Inr (cs2, (operation, remove1 (Single arg) l) # rest1))
      else
        (case remove_from_operations arg cs rest of
           Inl e \<Rightarrow> Inl e
         | Inr (cs2, rest1) \<Rightarrow> Inr (cs2, (operation, l) # rest1)))"

section \<open>Resolution API\<close>

text \<open>\<open>_do_basic\<close>: the names are expanded once, then each is marked and queued.\<close>

fun do_basic_loop ::
  "status_arg \<Rightarrow> string \<Rightarrow> 'd builder \<Rightarrow> string list \<Rightarrow> error + 'd builder" where
  "do_basic_loop st operation b [] = Inr b"
| "do_basic_loop st operation b (nm # names) =
     (case mark_as_solved nm st b of
        Inl e \<Rightarrow> Inl e
      | Inr (conflict, b1) \<Rightarrow>
          do_basic_loop st operation
            (b1\<lparr>operations := put_operation operation (Single conflict) (operations b1)\<rparr>) names)"

definition do_basic :: "string \<Rightarrow> status_arg \<Rightarrow> string \<Rightarrow> 'd builder \<Rightarrow> error + 'd builder" where
  "do_basic nm st operation b = do_basic_loop st operation b (get_names nm st (conflicts b))"

definition add_dimension :: "string \<Rightarrow> 'd builder \<Rightarrow> error + 'd builder" where
  "add_dimension nm b = do_basic nm (StatusList [New, Changed]) ''add'' b"

definition remove_dimension :: "string \<Rightarrow> 'd builder \<Rightarrow> error + 'd builder" where
  "remove_dimension nm b = do_basic nm (StatusList [Missing]) ''remove'' b"

text \<open>
  \<open>reset_dimension\<close>: the loop runs once for each expanded name, and each round looks up
  \<open>arg\<close>, the whole selector string, not the expanded name.
\<close>

fun reset_loop :: "string \<Rightarrow> status_arg \<Rightarrow> 'd builder \<Rightarrow> string list \<Rightarrow> error + 'd builder" where
  "reset_loop arg st b [] = Inr b"
| "reset_loop arg st b (nm # names) =
     (case mark_as arg st False b of
        Inl e \<Rightarrow> Inl e
      | Inr (conflict, b1) \<Rightarrow>
          (case remove_from_operations conflict (conflicts b1) (operations b1) of
             Inl e \<Rightarrow> Inl e
           | Inr (cs, ops) \<Rightarrow> reset_loop arg st (b1\<lparr>conflicts := cs, operations := ops\<rparr>) names))"

definition reset_dimension :: "string \<Rightarrow> 'd builder \<Rightarrow> error + 'd builder" where
  "reset_dimension arg b =
     (let st = StatusList [Missing, New, Changed]
      in reset_loop arg st b (get_names arg st (conflicts b)))"

text \<open>
  \<open>rename_dimension(args)\<close> takes one argument, the pair \<open>(old, new)\<close>, and passes the
  bare strings \<open>'missing'\<close> and \<open>'new'\<close> as status.
\<close>

definition rename_dimension :: "string \<times> string \<Rightarrow> 'd builder \<Rightarrow> error + 'd builder" where
  "rename_dimension args b =
     (case args of (old, new) \<Rightarrow>
        (case assert_has_status old (StatusStr ''missing'') (conflicts b) of
           Inl e \<Rightarrow> Inl e
         | Inr (old_index, missing_conflicts) \<Rightarrow>
             (case assert_has_status new (StatusStr ''new'') (conflicts b) of
                Inl e \<Rightarrow> Inl e
              | Inr (new_index, new_conflicts) \<Rightarrow>
                  (let old_conflict = missing_conflicts ! old_index;
                       new_conflict = new_conflicts ! new_index
                   in Inr (b\<lparr>conflicts := set_solved new_conflict True
                                             (set_solved old_conflict True (conflicts b)),
                              operations := put_operation ''rename''
                                              (Tuple old_conflict new_conflict) (operations b)\<rparr>)))))"

text \<open>\<open>get_old_dimension_value\<close>: a membership test, then the dictionary lookup.\<close>

definition get_old_dimension_value :: "string \<Rightarrow> 'd builder \<Rightarrow> error + 'd dimension option" where
  "get_old_dimension_value nm b =
     (if space_contains nm (experiment_space b)
      then (case map_of (experiment_space b) nm of
              None \<Rightarrow> Inl KeyError
            | Some d \<Rightarrow> Inr (Some d))
      else Inr None)"

section \<open>Adaptors\<close>

text \<open>
  No adaptor class exists yet: \<open>_add_adaptor\<close>, \<open>_rename_adaptor\<close> and \<open>_remove_adaptor\<close>
  have the body \<open>pass\<close> and return \<open>None\<close>.
\<close>

typedecl adaptor

definition add_adaptor :: "payload \<Rightarrow> adaptor option" where
  "add_adaptor conflict = None"

definition rename_adaptor :: "payload \<Rightarrow> adaptor option" where
  "rename_adaptor conflict = None"

definition remove_adaptor :: "payload \<Rightarrow> adaptor option" where
  "remove_adaptor conflict = None"

definition operations_mapping :: "string \<Rightarrow> (payload \<Rightarrow> adaptor option) option" where
  "operations_mapping =
     [''add'' \<mapsto> add_adaptor, ''rename'' \<mapsto> rename_adaptor, ''remove'' \<mapsto> remove_adaptor]"

text \<open>The local list \<open>adaptors\<close> that \<open>create_adaptors\<close> fills.\<close>

fun adaptors_loop :: "ledger \<Rightarrow> adaptor option list \<Rightarrow> error + adaptor option list" where
  "adaptors_loop [] adaptors = Inr adaptors"
| "adaptors_loop ((operation, l) # rest) adaptors =
     (if l = [] then adaptors_loop rest adaptors
      else (case operations_mapping operation of
              None \<Rightarrow> Inl KeyError
            | Some f \<Rightarrow> adaptors_loop rest (adaptors @ map f l)))"

text \<open>
  \<open>create_adaptors\<close> has no \<open>return\<close> statement: once the loop is over the call
  returns \<open>None\<close>, and the list is dropped.
\<close>

definition create_adaptors :: "'d builder \<Rightarrow> error + adaptor option list option" where
  "create_adaptors b =
     (case adaptors_loop (operations b) [] of
        Inl e \<Rightarrow> Inl e
      | Inr adaptors \<Rightarrow> Inr None)"

section \<open>Command-line instructions\<close>

text \<open>
  \<open>commandline_keywords\<close>: the instruction buffers, in the order of the dictionary literal.
\<close>

type_synonym buffers = "(string \<times> string list) list"

definition commandline_keywords :: buffers where
  "commandline_keywords = [(''~+'', []), (''~-'', []), (''~>'', [])]"

definition buffer_append :: "string \<Rightarrow> string \<Rightarrow> buffers \<Rightarrow> buffers" where
  "buffer_append keyword arg bufs =
     map (\<lambda>(k, l). if k = keyword then (k, l @ [arg]) else (k, l)) bufs"

text \<open>
  The inner loop of \<open>_interpret_commandline\<close>: \<open>arg\<close> stays the string read at the start of
  the round, and \<open>args.index(arg)\<close> is the first position in the current list that holds
  an equal string (ValueError when none does).
\<close>

fun keyword_loop ::
  "string \<Rightarrow> string list \<Rightarrow> buffers \<Rightarrow> string list \<Rightarrow> error + (string list \<times> buffers)" where
  "keyword_loop arg args bufs [] = Inr (args, bufs)"
| "keyword_loop arg args bufs (keyword # keywords) =
     (if py_in keyword arg then
        (case index_of arg args of
           None \<Rightarrow> Inl ValueError
         | Some j \<Rightarrow> keyword_loop arg (args[j := replace keyword ''~'' arg])
                       (buffer_append keyword arg bufs) keywords)
      else keyword_loop arg args bufs keywords)"

text \<open>
  The outer loop: items are assigned in place, so the length of \<open>args\<close> never changes and
  the iterator visits the positions \<open>0 .. len(args) - 1\<close>, reading each from the current list.
\<close>

fun interpret_loop ::
  "nat list \<Rightarrow> string list \<Rightarrow> buffers \<Rightarrow> error + (string list \<times> buffers)" where
  "interpret_loop [] args bufs = Inr (args, bufs)"
| "interpret_loop (i # rest) args bufs =
     (case keyword_loop (args ! i) args bufs (map fst bufs) of
        Inl e \<Rightarrow> Inl e
      | Inr (args1, bufs1) \<Rightarrow> interpret_loop rest args1 bufs1)"

definition interpret_commandline :: "string list \<Rightarrow> error + (string list \<times> buffers)" where
  "interpret_commandline args = interpret_loop [0..<length args] args commandline_keywords"

section \<open>Well-formed builders\<close>

text \<open>
  Predicates used to state the properties below. \<open>shape\<close> is the part of the conflict
  list that no resolution call assigns: the status and the dimension of each conflict.
\<close>

definition shape :: "'d conflict list \<Rightarrow> (status \<times> 'd dimension) list" where
  "shape cs = map (\<lambda>c. (status c, dimension c)) cs"

text \<open>Some conflict named \<open>'/' + nm\<close> has one of the given statuses.\<close>

definition has_conflict :: "string \<Rightarrow> status list \<Rightarrow> 'd conflict list \<Rightarrow> bool" where
  "has_conflict nm sts cs =
     (\<exists>p \<in> set (shape cs). fst p \<in> set sts \<and> name (snd p) = CHR ''/'' # nm)"

text \<open>
  A selector that \<open>_get_names\<close> treats as one literal name: it has no space, is no
  status keyword and has no wildcard character.
\<close>

definition is_literal :: "string \<Rightarrow> bool" where
  "is_literal x = (CHR '' '' \<notin> set x \<and> special_keywords x = None \<and> CHR ''*'' \<notin> set x)"

fun mentions :: "nat \<Rightarrow> payload \<Rightarrow> bool" where
  "mentions c (Single i) = (c = i)"
| "mentions c (Tuple old new) = (c = old \<or> c = new)"

fun is_tuple :: "payload \<Rightarrow> bool" where
  "is_tuple (Single i) = False"
| "is_tuple (Tuple old new) = True"

text \<open>
  The ledger as the resolution calls build it: a dictionary (no key twice), no payload
  twice under one kind, pairs under \<open>rename\<close> and single conflicts under the other kinds.
\<close>

definition wf_ledger :: "ledger \<Rightarrow> bool" where
  "wf_ledger ops =
     (distinct (map fst ops)
      \<and> (\<forall>e \<in> set ops. distinct (snd e) \<and> (\<forall>p \<in> set (snd e). is_tuple p = (fst e = ''rename''))))"


text \<open>
  Conflict detection on built spaces gives each conflict its own name
  (\<open>find_conflicts_names_distinct\<close> below).
\<close>

definition wf_builder :: "'d builder \<Rightarrow> bool" where
  "wf_builder b =
     (distinct (map (\<lambda>c. name (dimension c)) (conflicts b)) \<and> wf_ledger (operations b))"

text \<open>
  The conflict of the name \<open>nm\<close> (looked up with the statuses \<open>st\<close>) is resolved and
  queued under the kind \<open>operation\<close>.
\<close>

definition settled :: "status_arg \<Rightarrow> string \<Rightarrow> string \<Rightarrow> 'd builder \<Rightarrow> bool" where
  "settled st operation nm b =
     (case assert_has_status nm st (conflicts b) of
        Inl e \<Rightarrow> False
      | Inr (idx, found) \<Rightarrow>
          is_solved (conflicts b ! (found ! idx))
          \<and> Single (found ! idx) \<in> set (entries (operations b) operation))"

section \<open>Conflict detection: one conflict for each discrepancy\<close>

lemma concat_map_if:
  "concat (map (\<lambda>x. if P x then [g x] else []) xs) = map g (filter P xs)"
  by (induction xs) simp_all

lemma distinct_count_list_one:
  "distinct xs \<Longrightarrow> x \<in> set xs \<Longrightarrow> count_list xs x = 1"
  by (induction xs) auto

lemma wf_space_values_distinct:
  assumes "wf_space sp"
  shows "distinct (map name (space_values sp))"
proof -
  have "map name (space_values sp) = map fst sp"
    using assms by (simp add: wf_space_def space_values_def)
  then show ?thesis using assms by (simp add: wf_space_def)
qed

lemma wf_space_value_iff:
  assumes "wf_space sp"
  shows "d \<in> set (space_values sp) \<longleftrightarrow> map_of sp (name d) = Some d"
proof
  assume "d \<in> set (space_values sp)"
  then obtain k where k: "(k, d) \<in> set sp" by (auto simp: space_values_def)
  with assms have "k = name d" by (auto simp: wf_space_def)
  with k assms show "map_of sp (name d) = Some d" by (simp add: wf_space_def)
next
  assume "map_of sp (name d) = Some d"
  then have "(name d, d) \<in> set sp" by (rule map_of_SomeD)
  then show "d \<in> set (space_values sp)" by (force simp: space_values_def)
qed

lemma wf_space_contains_name:
  "wf_space sp \<Longrightarrow> d \<in> set (space_values sp) \<Longrightarrow> space_contains (name d) sp"
  by (force simp: wf_space_def space_values_def space_contains_def)

text \<open>The two loops of \<open>_find_conflicts\<close> as two filtered passes.\<close>

lemma find_conflicts_alt:
  "find_conflicts parent cand =
     map (\<lambda>d. Conflict (if space_contains (name d) parent then Changed else New) d)
       (filter (\<lambda>d. space_contains (name d) parent \<longrightarrow> d \<notin> set (space_values parent))
          (space_values cand))
     @ map (Conflict Missing) (filter (\<lambda>d. \<not> space_contains (name d) cand) (space_values parent))"
proof -
  have "concat (map (\<lambda>dim.
        if space_contains (name dim) parent
        then (if dim \<notin> set (space_values parent) then [Conflict Changed dim] else [])
        else [Conflict New dim]) xs)
     = map (\<lambda>d. Conflict (if space_contains (name d) parent then Changed else New) d)
       (filter (\<lambda>d. space_contains (name d) parent \<longrightarrow> d \<notin> set (space_values parent)) xs)" for xs
    by (induction xs) simp_all
  then show ?thesis
    by (simp add: find_conflicts_def concat_map_if)
qed

lemma Conflict_sel [simp]:
  "dimension (Conflict s d) = d" "status (Conflict s d) = s" "is_solved (Conflict s d) = False"
  by (simp_all add: Conflict_def)

lemma find_conflicts_names_distinct:
  assumes "wf_space parent" "wf_space cand"
  shows "distinct (map (\<lambda>c. name (dimension c)) (find_conflicts parent cand))"
proof -
  have 1: "distinct (map name (filter P (space_values cand)))" for P
    using wf_space_values_distinct [OF assms(2)] by (simp add: distinct_map_filter)
  have 2: "distinct (map name (filter P (space_values parent)))" for P
    using wf_space_values_distinct [OF assms(1)] by (simp add: distinct_map_filter)
  have 3: "name d \<noteq> name p"
    if "d \<in> set (space_values cand)" "p \<in> set (space_values parent)"
      "\<not> space_contains (name p) cand" for d p
    using that wf_space_contains_name [OF assms(2) that(1)] by auto
  show ?thesis
    unfolding find_conflicts_alt
    using 1 2 3 by (auto simp: comp_def)
qed

lemma find_conflicts_distinct:
  assumes "wf_space parent" "wf_space cand"
  shows "distinct (find_conflicts parent cand)"
  using find_conflicts_names_distinct [OF assms] by (simp add: distinct_map)

text \<open>
  C1. For built spaces (each dimension registered under its own name, no name twice),
  conflict detection emits exactly one \<open>Conflict('new', d)\<close> for each candidate dimension
  whose name is absent from the parent space, exactly one \<open>Conflict('changed', d)\<close> for each
  candidate dimension whose name is in the parent space with a different dimension, exactly
  one \<open>Conflict('missing', p)\<close> for each parent dimension whose name is absent from the
  candidate space, and nothing else; spaces with the same entries give no conflict.
\<close>

theorem find_conflicts_spec:
  assumes "wf_space parent" and "wf_space cand"
  shows "(\<forall>d \<in> set (space_values cand). \<not> space_contains (name d) parent \<longrightarrow>
            count_list (find_conflicts parent cand) (Conflict New d) = 1)
    \<and> (\<forall>d \<in> set (space_values cand).
          space_contains (name d) parent \<and> map_of parent (name d) \<noteq> Some d \<longrightarrow>
            count_list (find_conflicts parent cand) (Conflict Changed d) = 1)
    \<and> (\<forall>p \<in> set (space_values parent). \<not> space_contains (name p) cand \<longrightarrow>
            count_list (find_conflicts parent cand) (Conflict Missing p) = 1)
    \<and> (\<forall>c \<in> set (find_conflicts parent cand).
          (c = Conflict New (dimension c) \<and> dimension c \<in> set (space_values cand)
             \<and> \<not> space_contains (name (dimension c)) parent)
        \<or> (c = Conflict Changed (dimension c) \<and> dimension c \<in> set (space_values cand)
             \<and> space_contains (name (dimension c)) parent
             \<and> map_of parent (name (dimension c)) \<noteq> Some (dimension c))
        \<or> (c = Conflict Missing (dimension c) \<and> dimension c \<in> set (space_values parent)
             \<and> \<not> space_contains (name (dimension c)) cand))
    \<and> (set parent = set cand \<longrightarrow> find_conflicts parent cand = [])"
proof -
  note iff = wf_space_value_iff [OF assms(1)]
  have mem: "set (find_conflicts parent cand) =
      {Conflict New d | d. d \<in> set (space_values cand) \<and> \<not> space_contains (name d) parent}
    \<union> {Conflict Changed d | d. d \<in> set (space_values cand) \<and> space_contains (name d) parent
          \<and> map_of parent (name d) \<noteq> Some d}
    \<union> {Conflict Missing p | p. p \<in> set (space_values parent) \<and> \<not> space_contains (name p) cand}"
    unfolding find_conflicts_alt by (auto simp: iff)
  have one: "count_list (find_conflicts parent cand) x = 1"
    if "x \<in> set (find_conflicts parent cand)" for x
    using find_conflicts_distinct [OF assms] that by (rule distinct_count_list_one)
  have a: "\<forall>d \<in> set (space_values cand). \<not> space_contains (name d) parent \<longrightarrow>
            count_list (find_conflicts parent cand) (Conflict New d) = 1"
    by (intro ballI impI one) (auto simp: mem)
  have b: "\<forall>d \<in> set (space_values cand).
          space_contains (name d) parent \<and> map_of parent (name d) \<noteq> Some d \<longrightarrow>
            count_list (find_conflicts parent cand) (Conflict Changed d) = 1"
    by (intro ballI impI one) (auto simp: mem)
  have c: "\<forall>p \<in> set (space_values parent). \<not> space_contains (name p) cand \<longrightarrow>
            count_list (find_conflicts parent cand) (Conflict Missing p) = 1"
    by (intro ballI impI one) (auto simp: mem)
  have d: "\<forall>c \<in> set (find_conflicts parent cand).
          (c = Conflict New (dimension c) \<and> dimension c \<in> set (space_values cand)
             \<and> \<not> space_contains (name (dimension c)) parent)
        \<or> (c = Conflict Changed (dimension c) \<and> dimension c \<in> set (space_values cand)
             \<and> space_contains (name (dimension c)) parent
             \<and> map_of parent (name (dimension c)) \<noteq> Some (dimension c))
        \<or> (c = Conflict Missing (dimension c) \<and> dimension c \<in> set (space_values parent)
             \<and> \<not> space_contains (name (dimension c)) cand)"
    unfolding mem by auto
  have e: "find_conflicts parent cand = []" if eq: "set parent = set cand"
  proof -
    have v: "set (space_values cand) = set (space_values parent)"
      using eq by (simp add: space_values_def)
    have k: "space_contains n cand = space_contains n parent" for n
      using eq by (simp add: space_contains_def)
    have "set (find_conflicts parent cand) = {}"
      unfolding mem using v k wf_space_contains_name [OF assms(1)] iff by auto
    then show ?thesis by simp
  qed
  from a b c d e show ?thesis by blast
qed

theorem find_conflicts_witness:
  "wf_space [(''/lr'', \<lparr>name = ''/lr'', decl = ''0.1''\<rparr>), (''/batch'', \<lparr>name = ''/batch'', decl = ''32''\<rparr>)]
   \<and> wf_space [(''/lr'', \<lparr>name = ''/lr'', decl = ''0.2''\<rparr>), (''/momentum'', \<lparr>name = ''/momentum'', decl = ''0.9''\<rparr>)]
   \<and> count_list (find_conflicts
         [(''/lr'', \<lparr>name = ''/lr'', decl = ''0.1''\<rparr>), (''/batch'', \<lparr>name = ''/batch'', decl = ''32''\<rparr>)]
         [(''/lr'', \<lparr>name = ''/lr'', decl = ''0.2''\<rparr>), (''/momentum'', \<lparr>name = ''/momentum'', decl = ''0.9''\<rparr>)])
       (Conflict New \<lparr>name = ''/momentum'', decl = ''0.9''\<rparr>) = 1
   \<and> count_list (find_conflicts
         [(''/lr'', \<lparr>name = ''/lr'', decl = ''0.1''\<rparr>), (''/batch'', \<lparr>name = ''/batch'', decl = ''32''\<rparr>)]
         [(''/lr'', \<lparr>name = ''/lr'', decl = ''0.2''\<rparr>), (''/momentum'', \<lparr>name = ''/momentum'', decl = ''0.9''\<rparr>)])
       (Conflict Changed \<lparr>name = ''/lr'', decl = ''0.2''\<rparr>) = 1
   \<and> count_list (find_conflicts
         [(''/lr'', \<lparr>name = ''/lr'', decl = ''0.1''\<rparr>), (''/batch'', \<lparr>name = ''/batch'', decl = ''32''\<rparr>)]
         [(''/lr'', \<lparr>name = ''/lr'', decl = ''0.2''\<rparr>), (''/momentum'', \<lparr>name = ''/momentum'', decl = ''0.9''\<rparr>)])
       (Conflict Missing \<lparr>name = ''/batch'', decl = ''32''\<rparr>) = 1"
proof -
  have p: "wf_space [(''/lr'', \<lparr>name = ''/lr'', decl = ''0.1''\<rparr>), (''/batch'', \<lparr>name = ''/batch'', decl = ''32''\<rparr>)]"
    by (simp add: wf_space_def)
  have c: "wf_space [(''/lr'', \<lparr>name = ''/lr'', decl = ''0.2''\<rparr>), (''/momentum'', \<lparr>name = ''/momentum'', decl = ''0.9''\<rparr>)]"
    by (simp add: wf_space_def)
  show ?thesis
    using p c find_conflicts_spec [OF p c]
    by (simp add: space_values_def space_contains_def)
qed

section \<open>Reading the parent space\<close>

text \<open>
  C10. For every name, \<open>get_old_dimension_value\<close> returns the dimension the parent space
  holds under that name when the name is in the parent space, and \<open>None\<close> when it is
  not; it raises in neither case. The function reads the builder and returns a value only:
  no field of the builder is assigned.
\<close>

theorem get_old_dimension_value_spec:
  "(space_contains nm (experiment_space b) \<longrightarrow>
      (\<exists>d. get_old_dimension_value nm b = Inr (Some d) \<and> (nm, d) \<in> set (experiment_space b)
           \<and> map_of (experiment_space b) nm = Some d))
   \<and> (\<not> space_contains nm (experiment_space b) \<longrightarrow> get_old_dimension_value nm b = Inr None)
   \<and> (\<forall>e. get_old_dimension_value nm b \<noteq> Inl e)"
proof (cases "map_of (experiment_space b) nm")
  case None
  then have "\<not> space_contains nm (experiment_space b)"
    by (simp add: space_contains_def map_of_eq_None_iff)
  then show ?thesis by (simp add: get_old_dimension_value_def)
next
  case (Some d)
  then have "(nm, d) \<in> set (experiment_space b)" by (rule map_of_SomeD)
  moreover from this have "space_contains nm (experiment_space b)"
    by (force simp: space_contains_def)
  ultimately show ?thesis using Some by (simp add: get_old_dimension_value_def)
qed

theorem get_old_dimension_value_witness:
  "space_contains ''/lr''
     (experiment_space \<lparr>experiment_space = [(''/lr'', \<lparr>name = ''/lr'', decl = ''0.1''\<rparr>)],
        conflicting_space = [], conflicts = ([] :: string conflict list), operations = []\<rparr>)
   \<and> get_old_dimension_value ''/lr''
       \<lparr>experiment_space = [(''/lr'', \<lparr>name = ''/lr'', decl = ''0.1''\<rparr>)],
        conflicting_space = [], conflicts = ([] :: string conflict list), operations = []\<rparr>
       = Inr (Some \<lparr>name = ''/lr'', decl = ''0.1''\<rparr>)
   \<and> \<not> space_contains ''/x''
       (experiment_space \<lparr>experiment_space = [(''/lr'', \<lparr>name = ''/lr'', decl = ''0.1''\<rparr>)],
          conflicting_space = [], conflicts = ([] :: string conflict list), operations = []\<rparr>)
   \<and> get_old_dimension_value ''/x''
       \<lparr>experiment_space = [(''/lr'', \<lparr>name = ''/lr'', decl = ''0.1''\<rparr>)],
        conflicting_space = [], conflicts = ([] :: string conflict list), operations = []\<rparr>
       = Inr None"
  using get_old_dimension_value_spec [of "''/lr''"
      "\<lparr>experiment_space = [(''/lr'', \<lparr>name = ''/lr'', decl = ''0.1''\<rparr>)],
        conflicting_space = [], conflicts = ([] :: string conflict list), operations = []\<rparr>"]
    get_old_dimension_value_spec [of "''/x''"
      "\<lparr>experiment_space = [(''/lr'', \<lparr>name = ''/lr'', decl = ''0.1''\<rparr>)],
        conflicting_space = [], conflicts = ([] :: string conflict list), operations = []\<rparr>"]
  by (simp add: space_contains_def)

section \<open>Adaptor creation\<close>

text \<open>
  C9 says that \<open>create_adaptors\<close> returns a sequence with one adaptor for each ledger
  entry. With one \<open>add\<close> entry queued the call returns \<open>None\<close>: the list it builds is
  never returned.
\<close>

theorem create_adaptors_returns_None:
  "create_adaptors
     \<lparr>experiment_space = [], conflicting_space = [(''/m'', \<lparr>name = ''/m'', decl = ''0.9''\<rparr>)],
      conflicts = [\<lparr>is_solved = True, dimension = \<lparr>name = ''/m'', decl = ''0.9''\<rparr>, status = New\<rparr>],
      operations = [(''add'', [Single 0])]\<rparr> = Inr None"
  by (simp add: create_adaptors_def operations_mapping_def)

section \<open>Name expansion: a literal after another selector\<close>

text \<open>
  C6 says that the expansions of all selectors are concatenated, those of earlier
  selectors retained. With the new conflicts \<open>/a\<close> and \<open>/b\<close>, the selector list
  \<open>~new b\<close> expands to \<open>b\<close> alone: the literal replaces the names collected so far.
\<close>

theorem get_names_literal_discards:
  "get_names ''~new b'' (StatusList [New, Changed])
     [Conflict New \<lparr>name = ''/a'', decl = ''1''\<rparr>, Conflict New \<lparr>name = ''/b'', decl = ''2''\<rparr>]
   = [''b'']"
  by code_simp

section \<open>Command-line instructions: the position that is rewritten\<close>

text \<open>
  C8 says that each argument with one operator token is appended to the buffer of its
  operator and rewritten in place. For the arguments \<open>x~++\<close> and \<open>x~+\<close>, each holding
  the one token \<open>~+\<close>, the second round rewrites the first position again, since
  \<open>args.index\<close> finds the rewritten first argument there: the list ends as
  \<open>x~\<close>, \<open>x~+\<close> and not as \<open>x~+\<close>, \<open>x~\<close>.
\<close>

theorem interpret_commandline_index_slip:
  "interpret_commandline [''x~++'', ''x~+'']
     = Inr ([''x~'', ''x~+''], [(''~+'', [''x~++'', ''x~+'']), (''~-'', []), (''~>'', [])])"
  by code_simp

section \<open>Lookups and what the resolution calls leave unchanged\<close>

lemma index_of_None_iff: "index_of x xs = None \<longleftrightarrow> x \<notin> set xs"
  by (induction xs) auto

lemma index_of_SomeD: "index_of x xs = Some i \<Longrightarrow> i < length xs \<and> xs ! i = x"
  by (induction xs arbitrary: i) (auto split: if_splits)

lemma index_of_first: "index_of x xs = Some i \<Longrightarrow> j < i \<Longrightarrow> xs ! j \<noteq> x"
proof (induction xs arbitrary: i j)
  case Nil
  then show ?case by simp
next
  case (Cons y ys)
  show ?case
  proof (cases "y = x")
    case True
    with Cons.prems show ?thesis by simp
  next
    case False
    with Cons.prems obtain i' where i': "index_of x ys = Some i'" "i = Suc i'"
      by (cases "index_of x ys") auto
    show ?thesis
    proof (cases j)
      case 0
      with False show ?thesis by simp
    next
      case (Suc j')
      with Cons.prems i' have "j' < i'" by simp
      from Cons.IH [OF i'(1) this] Suc show ?thesis by simp
    qed
  qed
qed

lemma status_in_missing: "status_in s (StatusStr ''missing'') = status_in s (StatusList [Missing])"
  by (cases s) (simp_all add: startswith_def)

lemma status_in_new: "status_in s (StatusStr ''new'') = status_in s (StatusList [New])"
  by (cases s) (simp_all add: startswith_def)

lemma shape_length: "shape cs = shape cs' \<Longrightarrow> length cs = length cs'"
  unfolding shape_def by (rule map_eq_imp_length_eq)

lemma shape_nth:
  assumes "shape cs = shape cs'" "i < length cs"
  shows "status (cs ! i) = status (cs' ! i)" "dimension (cs ! i) = dimension (cs' ! i)"
proof -
  have "shape cs ! i = shape cs' ! i" using assms by simp
  moreover have "i < length cs'" using assms shape_length by metis
  ultimately show "status (cs ! i) = status (cs' ! i)" "dimension (cs ! i) = dimension (cs' ! i)"
    using assms(2) by (simp_all add: shape_def)
qed

lemma shape_set_solved [simp]: "shape (set_solved c v cs) = shape cs"
proof (cases "c < length cs")
  case True
  then show ?thesis
    by (simp add: shape_def set_solved_def map_update list_update_same_conv)
next
  case False
  then show ?thesis by (simp add: set_solved_def list_update_beyond)
qed

lemma length_set_solved [simp]: "length (set_solved c v cs) = length cs"
  by (simp add: set_solved_def)

lemma filter_conflicts_shape:
  assumes "shape cs = shape cs'"
    and "\<And>c c'. status c = status c' \<Longrightarrow> dimension c = dimension c' \<Longrightarrow> f c = f c'"
  shows "filter_conflicts f cs = filter_conflicts f cs'"
proof -
  have "length cs = length cs'" using assms(1) by (rule shape_length)
  moreover have "f (cs ! i) = f (cs' ! i)" if "i < length cs" for i
    using shape_nth [OF assms(1) that] assms(2) by blast
  ultimately show ?thesis
    unfolding filter_conflicts_def by (auto intro: filter_cong)
qed

lemma filter_conflicts_with_status_shape:
  "shape cs = shape cs' \<Longrightarrow> filter_conflicts_with_status st cs = filter_conflicts_with_status st cs'"
  unfolding filter_conflicts_with_status_def by (rule filter_conflicts_shape) simp_all

lemma filter_conflicts_bound: "i \<in> set (filter_conflicts f cs) \<Longrightarrow> i < length cs \<and> f (cs ! i)"
  by (simp add: filter_conflicts_def)

lemma assert_has_status_shape:
  assumes "shape cs = shape cs'"
  shows "assert_has_status nm st cs = assert_has_status nm st cs'"
proof -
  have f: "filter_conflicts_with_status st cs = filter_conflicts_with_status st cs'"
    using assms by (rule filter_conflicts_with_status_shape)
  have "map (\<lambda>i. name (dimension (cs ! i))) (filter_conflicts_with_status st cs')
      = map (\<lambda>i. name (dimension (cs' ! i))) (filter_conflicts_with_status st cs')"
  proof (rule map_cong [OF refl])
    fix i assume "i \<in> set (filter_conflicts_with_status st cs')"
    then have "i < length cs'"
      by (simp add: filter_conflicts_with_status_def filter_conflicts_def)
    then have "i < length cs" using shape_length [OF assms] by simp
    then show "name (dimension (cs ! i)) = name (dimension (cs' ! i))"
      using shape_nth(2) [OF assms] by simp
  qed
  then show ?thesis by (simp only: assert_has_status_def f Let_def)
qed

lemma tl_names_shape:
  assumes "shape cs = shape cs'" and "set found \<subseteq> {i. i < length cs'}"
  shows "map (\<lambda>i. tl (name (dimension (cs ! i)))) found
       = map (\<lambda>i. tl (name (dimension (cs' ! i)))) found"
proof (rule map_cong [OF refl])
  fix i assume "i \<in> set found"
  then have "i < length cs'" using assms(2) by auto
  then have "i < length cs" using shape_length [OF assms(1)] by simp
  then show "tl (name (dimension (cs ! i))) = tl (name (dimension (cs' ! i)))"
    using shape_nth(2) [OF assms(1)] by simp
qed

lemma extend_special_keywords_shape:
  assumes "shape cs = shape cs'"
  shows "extend_special_keywords arg names cs = extend_special_keywords arg names cs'"
proof (cases "special_keywords arg")
  case None
  then show ?thesis by (simp add: extend_special_keywords_def)
next
  case (Some s)
  have f: "filter_conflicts_with_status (StatusList [s]) cs
         = filter_conflicts_with_status (StatusList [s]) cs'"
    using assms by (rule filter_conflicts_with_status_shape)
  have "set (filter_conflicts_with_status (StatusList [s]) cs') \<subseteq> {i. i < length cs'}"
    by (auto simp: filter_conflicts_with_status_def dest: filter_conflicts_bound)
  from tl_names_shape [OF assms this] show ?thesis
    by (simp only: extend_special_keywords_def Some option.case f)
qed

lemma extend_wildcard_shape:
  assumes "shape cs = shape cs'"
  shows "extend_wildcard arg names st cs = extend_wildcard arg names st cs'"
proof -
  let ?f = "\<lambda>c. startswith (name (dimension c)) (CHR ''/'' # hd (split (CHR ''*'') arg))
                \<and> status_in (status c) st"
  have f: "filter_conflicts ?f cs = filter_conflicts ?f cs'"
    using assms by (rule filter_conflicts_shape) simp
  have "set (filter_conflicts ?f cs') \<subseteq> {i. i < length cs'}"
    by (auto dest: filter_conflicts_bound)
  from tl_names_shape [OF assms this] show ?thesis
    by (simp only: extend_wildcard_def Let_def f)
qed

lemma get_names_loop_shape:
  assumes "shape cs = shape cs'"
  shows "get_names_loop cs st names args = get_names_loop cs' st names args"
proof (induction args arbitrary: names)
  case Nil
  then show ?case by simp
next
  case (Cons arg args)
  show ?case
    by (simp only: get_names_loop.simps extend_special_keywords_shape [OF assms]
        extend_wildcard_shape [OF assms] Cons.IH)
qed

lemma get_names_shape:
  "shape cs = shape cs' \<Longrightarrow> get_names nm st cs = get_names nm st cs'"
  unfolding get_names_def by (rule get_names_loop_shape)

text \<open>What a successful or failed lookup means.\<close>

lemma assert_has_status_Inl:
  "assert_has_status nm st cs = Inl e \<Longrightarrow> e = ValueError"
  by (auto simp: assert_has_status_def Let_def split: option.splits)

lemma assert_has_status_InrD:
  assumes "assert_has_status nm st cs = Inr (idx, found)"
  shows "idx < length found" "found ! idx < length cs"
    "status_in (status (cs ! (found ! idx))) st"
    "name (dimension (cs ! (found ! idx))) = CHR ''/'' # nm"
    "found = filter_conflicts_with_status st cs"
proof -
  from assms have f: "found = filter_conflicts_with_status st cs"
    and i: "index_of (CHR ''/'' # nm) (map (\<lambda>i. name (dimension (cs ! i))) found) = Some idx"
    by (auto simp: assert_has_status_def Let_def split: option.splits)
  from index_of_SomeD [OF i] show 1: "idx < length found"
    and 2: "name (dimension (cs ! (found ! idx))) = CHR ''/'' # nm" by auto
  from 1 have "found ! idx \<in> set (filter_conflicts (\<lambda>c. status_in (status c) st) cs)"
    using f by (simp add: filter_conflicts_with_status_def)
  from filter_conflicts_bound [OF this]
  show "found ! idx < length cs" "status_in (status (cs ! (found ! idx))) st" by simp_all
  show "found = filter_conflicts_with_status st cs" by (rule f)
qed

lemma set_filter_conflicts: "set (filter_conflicts f cs) = {i. i < length cs \<and> f (cs ! i)}"
  by (auto simp: filter_conflicts_def)

lemma has_conflict_iff:
  "has_conflict nm sts cs \<longleftrightarrow>
     (\<exists>i < length cs. status (cs ! i) \<in> set sts \<and> name (dimension (cs ! i)) = CHR ''/'' # nm)"
proof -
  have "has_conflict nm sts cs \<longleftrightarrow>
     (\<exists>c \<in> set cs. status c \<in> set sts \<and> name (dimension c) = CHR ''/'' # nm)"
    by (simp add: has_conflict_def shape_def)
  then show ?thesis by (simp add: Bex_def in_set_conv_nth) blast
qed

lemma assert_has_status_fails_iff:
  "assert_has_status nm (StatusList sts) cs = Inl ValueError \<longleftrightarrow> \<not> has_conflict nm sts cs"
proof -
  have "CHR ''/'' # nm \<in> set (map (\<lambda>i. name (dimension (cs ! i))) (filter_conflicts_with_status (StatusList sts) cs))
      \<longleftrightarrow> has_conflict nm sts cs"
    unfolding has_conflict_iff filter_conflicts_with_status_def set_map set_filter_conflicts
    by (fastforce simp: image_iff)
  moreover have "assert_has_status nm (StatusList sts) cs = Inl ValueError \<longleftrightarrow>
      index_of (CHR ''/'' # nm) (map (\<lambda>i. name (dimension (cs ! i)))
        (filter_conflicts_with_status (StatusList sts) cs)) = None"
    by (simp add: assert_has_status_def Let_def split: option.splits)
  ultimately show ?thesis by (simp only: index_of_None_iff)
qed

lemma assert_has_status_str:
  "assert_has_status nm (StatusStr ''missing'') cs = assert_has_status nm (StatusList [Missing]) cs"
  "assert_has_status nm (StatusStr ''new'') cs = assert_has_status nm (StatusList [New]) cs"
  unfolding assert_has_status_def filter_conflicts_with_status_def status_in_missing status_in_new
  by (rule refl)+

lemma mark_as_Inr:
  assumes "mark_as nm st v b = Inr (c, b1)"
  shows "\<exists>idx found. assert_has_status nm st (conflicts b) = Inr (idx, found) \<and> c = found ! idx"
    and "b1 = b\<lparr>conflicts := set_solved c v (conflicts b)\<rparr>"
  using assms by (auto simp: mark_as_def set_solved_def Let_def split: sum.splits prod.splits)

lemma mark_as_Inl:
  "mark_as nm st v b = Inl e \<longleftrightarrow> assert_has_status nm st (conflicts b) = Inl e"
  by (auto simp: mark_as_def Let_def split: sum.splits prod.splits)

lemma do_basic_loop_fails:
  assumes "\<exists>n \<in> set names. \<not> has_conflict n sts (conflicts b)"
  shows "do_basic_loop (StatusList sts) operation b names = Inl ValueError"
  using assms
proof (induction names arbitrary: b)
  case Nil
  then show ?case by simp
next
  case (Cons n names)
  show ?case
  proof (cases "mark_as_solved n (StatusList sts) b")
    case (Inl e)
    then have "e = ValueError"
      by (auto simp: mark_as_solved_def mark_as_Inl dest: assert_has_status_Inl)
    with Inl show ?thesis by simp
  next
    case (Inr r)
    obtain c b1 where r: "r = (c, b1)" by (cases r)
    from Inr r have m: "mark_as n (StatusList sts) True b = Inr (c, b1)"
      by (simp add: mark_as_solved_def)
    from mark_as_Inr(2) [OF m] have s: "shape (conflicts b1) = shape (conflicts b)" by simp
    from mark_as_Inr(1) [OF m] have "has_conflict n sts (conflicts b)"
      using assert_has_status_fails_iff [of n sts "conflicts b"] by auto
    with Cons.prems have "\<exists>n \<in> set names. \<not> has_conflict n sts (conflicts b)" by auto
    then have "\<exists>n \<in> set names. \<not> has_conflict n sts
        (conflicts (b1\<lparr>operations := put_operation operation (Single c) (operations b1)\<rparr>))"
      using s by (simp add: has_conflict_def)
    from Cons.IH [OF this] show ?thesis using Inr r by simp
  qed
qed


section \<open>Failing resolution calls\<close>

text \<open>
  C7, as amended. A resolution call fails with the \<open>ValueError\<close> of \<open>list.index\<close>:
  \<open>add_dimension\<close> and \<open>remove_dimension\<close> when some name of the expansion has no
  conflict with a required status, \<open>rename_dimension\<close> when \<open>old\<close> has no
  \<open>missing\<close> conflict or \<open>new\<close> has no \<open>new\<close> conflict.
\<close>

theorem resolution_fails_with_ValueError:
  "((\<exists>n \<in> set (get_names nm (StatusList [New, Changed]) (conflicts b)).
        \<not> has_conflict n [New, Changed] (conflicts b))
      \<longrightarrow> add_dimension nm b = Inl ValueError)
   \<and> ((\<exists>n \<in> set (get_names nm (StatusList [Missing]) (conflicts b)).
        \<not> has_conflict n [Missing] (conflicts b))
      \<longrightarrow> remove_dimension nm b = Inl ValueError)
   \<and> (\<not> has_conflict old [Missing] (conflicts b) \<or> \<not> has_conflict new [New] (conflicts b)
      \<longrightarrow> rename_dimension (old, new) b = Inl ValueError)"
proof (intro conjI impI)
  assume "\<exists>n \<in> set (get_names nm (StatusList [New, Changed]) (conflicts b)).
        \<not> has_conflict n [New, Changed] (conflicts b)"
  then show "add_dimension nm b = Inl ValueError"
    unfolding add_dimension_def do_basic_def by (rule do_basic_loop_fails)
next
  assume "\<exists>n \<in> set (get_names nm (StatusList [Missing]) (conflicts b)).
        \<not> has_conflict n [Missing] (conflicts b)"
  then show "remove_dimension nm b = Inl ValueError"
    unfolding remove_dimension_def do_basic_def by (rule do_basic_loop_fails)
next
  assume "\<not> has_conflict old [Missing] (conflicts b) \<or> \<not> has_conflict new [New] (conflicts b)"
  then have "assert_has_status old (StatusStr ''missing'') (conflicts b) = Inl ValueError
    \<or> assert_has_status new (StatusStr ''new'') (conflicts b) = Inl ValueError"
    by (simp add: assert_has_status_str assert_has_status_fails_iff)
  then show "rename_dimension (old, new) b = Inl ValueError"
    by (auto simp: rename_dimension_def split: sum.splits dest: assert_has_status_Inl)
qed

theorem resolution_fails_witness:
  "(\<exists>n \<in> set (get_names ''batch'' (StatusList [New, Changed])
        [Conflict Changed \<lparr>name = ''/lr'', decl = ''0.2''\<rparr>,
         Conflict Missing \<lparr>name = ''/batch'', decl = ''32''\<rparr>]).
      \<not> has_conflict n [New, Changed]
        [Conflict Changed \<lparr>name = ''/lr'', decl = ''0.2''\<rparr>,
         Conflict Missing \<lparr>name = ''/batch'', decl = ''32''\<rparr>])
   \<and> add_dimension ''batch''
       \<lparr>experiment_space = [(''/lr'', \<lparr>name = ''/lr'', decl = ''0.1''\<rparr>),
                            (''/batch'', \<lparr>name = ''/batch'', decl = ''32''\<rparr>)],
        conflicting_space = [(''/lr'', \<lparr>name = ''/lr'', decl = ''0.2''\<rparr>)],
        conflicts = [Conflict Changed \<lparr>name = ''/lr'', decl = ''0.2''\<rparr>,
                     Conflict Missing \<lparr>name = ''/batch'', decl = ''32''\<rparr>],
        operations = []\<rparr> = Inl ValueError
   \<and> (\<exists>n \<in> set (get_names ''lr'' (StatusList [Missing])
        [Conflict Changed \<lparr>name = ''/lr'', decl = ''0.2''\<rparr>,
         Conflict Missing \<lparr>name = ''/batch'', decl = ''32''\<rparr>]).
      \<not> has_conflict n [Missing]
        [Conflict Changed \<lparr>name = ''/lr'', decl = ''0.2''\<rparr>,
         Conflict Missing \<lparr>name = ''/batch'', decl = ''32''\<rparr>])
   \<and> remove_dimension ''lr''
       \<lparr>experiment_space = [(''/lr'', \<lparr>name = ''/lr'', decl = ''0.1''\<rparr>),
                            (''/batch'', \<lparr>name = ''/batch'', decl = ''32''\<rparr>)],
        conflicting_space = [(''/lr'', \<lparr>name = ''/lr'', decl = ''0.2''\<rparr>)],
        conflicts = [Conflict Changed \<lparr>name = ''/lr'', decl = ''0.2''\<rparr>,
                     Conflict Missing \<lparr>name = ''/batch'', decl = ''32''\<rparr>],
        operations = []\<rparr> = Inl ValueError
   \<and> \<not> has_conflict ''newbatch'' [New]
        [Conflict Changed \<lparr>name = ''/lr'', decl = ''0.2''\<rparr>,
         Conflict Missing \<lparr>name = ''/batch'', decl = ''32''\<rparr>]
   \<and> rename_dimension (''batch'', ''newbatch'')
       \<lparr>experiment_space = [(''/lr'', \<lparr>name = ''/lr'', decl = ''0.1''\<rparr>),
                            (''/batch'', \<lparr>name = ''/batch'', decl = ''32''\<rparr>)],
        conflicting_space = [(''/lr'', \<lparr>name = ''/lr'', decl = ''0.2''\<rparr>)],
        conflicts = [Conflict Changed \<lparr>name = ''/lr'', decl = ''0.2''\<rparr>,
                     Conflict Missing \<lparr>name = ''/batch'', decl = ''32''\<rparr>],
        operations = []\<rparr> = Inl ValueError"
proof -
  let ?cs = "[Conflict Changed \<lparr>name = ''/lr'', decl = ''0.2''\<rparr>,
              Conflict Missing \<lparr>name = ''/batch'', decl = ''32''\<rparr>]"
  let ?b = "\<lparr>experiment_space = [(''/lr'', \<lparr>name = ''/lr'', decl = ''0.1''\<rparr>),
                            (''/batch'', \<lparr>name = ''/batch'', decl = ''32''\<rparr>)],
        conflicting_space = [(''/lr'', \<lparr>name = ''/lr'', decl = ''0.2''\<rparr>)],
        conflicts = ?cs, operations = []\<rparr>"
  have a: "\<exists>n \<in> set (get_names ''batch'' (StatusList [New, Changed]) ?cs).
      \<not> has_conflict n [New, Changed] ?cs"
    by code_simp
  have r: "\<exists>n \<in> set (get_names ''lr'' (StatusList [Missing]) ?cs). \<not> has_conflict n [Missing] ?cs"
    by code_simp
  have n: "\<not> has_conflict ''newbatch'' [New] ?cs"
    by code_simp
  show ?thesis
    using a r n resolution_fails_with_ValueError [of "''batch''" ?b "''batch''" "''newbatch''"]
      resolution_fails_with_ValueError [of "''lr''" ?b "''batch''" "''newbatch''"]
    by simp
qed


text \<open>
  C7 as stated names \<open>ConflictNotFoundError\<close>. With the conflicts changed \<open>/lr\<close> and
  missing \<open>/batch\<close>, renaming \<open>batch\<close> to \<open>newbatch\<close> fails, and the error is
  \<open>ValueError\<close>.
\<close>

theorem rename_dimension_not_ConflictNotFoundError:
  "rename_dimension (''batch'', ''newbatch'')
     \<lparr>experiment_space = [(''/lr'', \<lparr>name = ''/lr'', decl = ''0.1''\<rparr>),
                          (''/batch'', \<lparr>name = ''/batch'', decl = ''32''\<rparr>)],
      conflicting_space = [(''/lr'', \<lparr>name = ''/lr'', decl = ''0.2''\<rparr>)],
      conflicts = find_conflicts
                    [(''/lr'', \<lparr>name = ''/lr'', decl = ''0.1''\<rparr>),
                     (''/batch'', \<lparr>name = ''/batch'', decl = ''32''\<rparr>)]
                    [(''/lr'', \<lparr>name = ''/lr'', decl = ''0.2''\<rparr>)],
      operations = []\<rparr> = Inl ValueError
   \<and> rename_dimension (''batch'', ''newbatch'')
     \<lparr>experiment_space = [(''/lr'', \<lparr>name = ''/lr'', decl = ''0.1''\<rparr>),
                          (''/batch'', \<lparr>name = ''/batch'', decl = ''32''\<rparr>)],
      conflicting_space = [(''/lr'', \<lparr>name = ''/lr'', decl = ''0.2''\<rparr>)],
      conflicts = find_conflicts
                    [(''/lr'', \<lparr>name = ''/lr'', decl = ''0.1''\<rparr>),
                     (''/batch'', \<lparr>name = ''/batch'', decl = ''32''\<rparr>)]
                    [(''/lr'', \<lparr>name = ''/lr'', decl = ''0.2''\<rparr>)],
      operations = []\<rparr> \<noteq> Inl ConflictNotFoundError"
  by code_simp

section \<open>Queueing an operation twice\<close>

lemma entries_put_operation_same:
  "entries (put_operation k p ops) k =
     (if p \<in> set (entries ops k) then entries ops k else entries ops k @ [p])"
  by (induction ops) (auto simp: entries_def)

lemma entries_put_operation_other:
  "k' \<noteq> k \<Longrightarrow> entries (put_operation k p ops) k' = entries ops k'"
  by (induction ops) (auto simp: entries_def)

lemma put_operation_id:
  "p \<in> set (entries ops k) \<Longrightarrow> put_operation k p ops = ops"
  by (induction ops) (auto simp: entries_def split: if_splits)

lemma put_operation_keys:
  "map fst (put_operation k p ops) =
     (if k \<in> set (map fst ops) then map fst ops else map fst ops @ [k])"
  by (induction ops) (auto simp: rev_image_eqI)

lemma set_solved_nth:
  "c < length cs \<Longrightarrow> is_solved (set_solved c v cs ! c) = v"
  by (simp add: set_solved_def)

lemma set_solved_nth_other:
  "i \<noteq> c \<Longrightarrow> set_solved c v cs ! i = cs ! i"
  by (simp add: set_solved_def)

lemma set_solved_id:
  assumes "is_solved (cs ! c) = v"
  shows "set_solved c v cs = cs"
proof -
  have "(cs ! c)\<lparr>is_solved := v\<rparr> = cs ! c"
    unfolding assms [symmetric] by simp
  then show ?thesis by (simp add: set_solved_def)
qed

lemma set_solved_mono:
  "is_solved (cs ! i) \<Longrightarrow> is_solved (set_solved c True cs ! i)"
proof (cases "i = c \<and> c < length cs")
  case True
  then show ?thesis by (simp add: set_solved_nth)
next
  case False
  assume s: "is_solved (cs ! i)"
  show ?thesis
  proof (cases "i = c")
    case True
    with False have "set_solved c True cs = cs" by (simp add: set_solved_def list_update_beyond)
    with s show ?thesis by simp
  next
    case False
    with s show ?thesis by (simp add: set_solved_nth_other)
  qed
qed

lemma mark_as_solved_Inr:
  assumes "mark_as_solved nm st b = Inr (c, b1)"
  shows "\<exists>idx found. assert_has_status nm st (conflicts b) = Inr (idx, found) \<and> c = found ! idx"
    and "b1 = b\<lparr>conflicts := set_solved c True (conflicts b)\<rparr>"
    and "c < length (conflicts b)"
proof -
  from assms have m: "mark_as nm st True b = Inr (c, b1)" by (simp add: mark_as_solved_def)
  from mark_as_Inr(1) [OF m]
  show 1: "\<exists>idx found. assert_has_status nm st (conflicts b) = Inr (idx, found) \<and> c = found ! idx" .
  from mark_as_Inr(2) [OF m] show "b1 = b\<lparr>conflicts := set_solved c True (conflicts b)\<rparr>" .
  from 1 show "c < length (conflicts b)" by (auto dest: assert_has_status_InrD(2))
qed

lemma settled_step:
  assumes "settled st operation n b"
  shows "do_basic_loop st operation b (n # names) = do_basic_loop st operation b names"
proof -
  from assms obtain idx found where
    a: "assert_has_status n st (conflicts b) = Inr (idx, found)"
    and s: "is_solved (conflicts b ! (found ! idx))"
    and q: "Single (found ! idx) \<in> set (entries (operations b) operation)"
    by (auto simp: settled_def split: sum.splits)
  from s have "set_solved (found ! idx) True (conflicts b) = conflicts b"
    by (simp add: set_solved_id)
  then have "mark_as_solved n st b = Inr (found ! idx, b)"
    using a by (simp add: mark_as_solved_def mark_as_def set_solved_def)
  then show ?thesis using q by (simp add: put_operation_id)
qed

lemma settled_mono:
  assumes "settled st operation n b"
    and "shape (conflicts b') = shape (conflicts b)"
    and "\<And>i. is_solved (conflicts b ! i) \<Longrightarrow> is_solved (conflicts b' ! i)"
    and "set (entries (operations b) operation) \<subseteq> set (entries (operations b') operation)"
  shows "settled st operation n b'"
proof -
  from assms(1) obtain idx found where
    a: "assert_has_status n st (conflicts b) = Inr (idx, found)"
    and s: "is_solved (conflicts b ! (found ! idx))"
    and q: "Single (found ! idx) \<in> set (entries (operations b) operation)"
    by (auto simp: settled_def split: sum.splits)
  from a assms(2) have "assert_has_status n st (conflicts b') = Inr (idx, found)"
    using assert_has_status_shape [of "conflicts b'" "conflicts b" n st] by simp
  with s q assms(3,4) show ?thesis by (auto simp: settled_def)
qed

lemma do_basic_step_facts:
  fixes operation :: string
  assumes "mark_as_solved n st b = Inr (c, b1)"
  defines "b2 \<equiv> b1\<lparr>operations := put_operation operation (Single c) (operations b1)\<rparr>"
  shows "shape (conflicts b2) = shape (conflicts b)"
    and "\<And>i. is_solved (conflicts b ! i) \<Longrightarrow> is_solved (conflicts b2 ! i)"
    and "set (entries (operations b) k) \<subseteq> set (entries (operations b2) k)"
    and "settled st operation n b2"
    and "distinct (entries (operations b) k) \<Longrightarrow> distinct (entries (operations b2) k)"
proof -
  note m = mark_as_solved_Inr [OF assms(1)]
  from m(2) have cs: "conflicts b2 = set_solved c True (conflicts b)"
    and ops: "operations b2 = put_operation operation (Single c) (operations b)"
    by (simp_all add: b2_def)
  show sh: "shape (conflicts b2) = shape (conflicts b)" by (simp add: cs)
  show "\<And>i. is_solved (conflicts b ! i) \<Longrightarrow> is_solved (conflicts b2 ! i)"
    by (simp add: cs set_solved_mono)
  show "set (entries (operations b) k) \<subseteq> set (entries (operations b2) k)"
    by (cases "k = operation")
      (auto simp: ops entries_put_operation_same entries_put_operation_other)
  show "distinct (entries (operations b) k) \<Longrightarrow> distinct (entries (operations b2) k)"
    by (cases "k = operation")
      (auto simp: ops entries_put_operation_same entries_put_operation_other)
  from m(1) obtain idx found where
    a: "assert_has_status n st (conflicts b) = Inr (idx, found)" and c: "c = found ! idx"
    by blast
  from a sh have "assert_has_status n st (conflicts b2) = Inr (idx, found)"
    using assert_has_status_shape [of "conflicts b2" "conflicts b" n st] by simp
  moreover have "is_solved (conflicts b2 ! c)" using m(3) by (simp add: cs set_solved_nth)
  moreover have "Single c \<in> set (entries (operations b2) operation)"
    by (simp add: ops entries_put_operation_same)
  ultimately show "settled st operation n b2" using c by (simp add: settled_def)
qed

lemma do_basic_loop_facts:
  assumes "do_basic_loop st operation b names = Inr b'"
  shows "shape (conflicts b') = shape (conflicts b)
    \<and> (\<forall>i. is_solved (conflicts b ! i) \<longrightarrow> is_solved (conflicts b' ! i))
    \<and> (\<forall>k. set (entries (operations b) k) \<subseteq> set (entries (operations b') k))
    \<and> (\<forall>k. distinct (entries (operations b) k) \<longrightarrow> distinct (entries (operations b') k))
    \<and> (\<forall>n \<in> set names. settled st operation n b')"
  using assms
proof (induction names arbitrary: b)
  case Nil
  then show ?case by simp
next
  case (Cons n names)
  from Cons.prems obtain c b1 where m: "mark_as_solved n st b = Inr (c, b1)"
    by (auto split: sum.splits)
  define b2 where "b2 = b1\<lparr>operations := put_operation operation (Single c) (operations b1)\<rparr>"
  note step = do_basic_step_facts [OF m, where operation = operation, folded b2_def]
  from Cons.prems m have l: "do_basic_loop st operation b2 names = Inr b'"
    by (simp add: b2_def)
  from Cons.IH [OF l] have sh: "shape (conflicts b') = shape (conflicts b2)"
    and so: "\<And>i. is_solved (conflicts b2 ! i) \<Longrightarrow> is_solved (conflicts b' ! i)"
    and en: "\<And>k. set (entries (operations b2) k) \<subseteq> set (entries (operations b') k)"
    and di: "\<And>k. distinct (entries (operations b2) k) \<Longrightarrow> distinct (entries (operations b') k)"
    and se: "\<forall>n \<in> set names. settled st operation n b'"
    by blast+
  have "settled st operation n b'"
    using step(4) sh so en by (rule settled_mono)
  with se have 5: "\<forall>m \<in> set (n # names). settled st operation m b'" by simp
  have 1: "shape (conflicts b') = shape (conflicts b)" using sh step(1) by simp
  have 2: "\<forall>i. is_solved (conflicts b ! i) \<longrightarrow> is_solved (conflicts b' ! i)"
    using so step(2) by blast
  have 3: "\<forall>k. set (entries (operations b) k) \<subseteq> set (entries (operations b') k)"
    using en step(3) by blast
  have 4: "\<forall>k. distinct (entries (operations b) k) \<longrightarrow> distinct (entries (operations b') k)"
    using di step(5) by blast
  from 1 2 3 4 5 show ?case by blast
qed

lemma do_basic_loop_settled:
  "\<forall>n \<in> set names. settled st operation n b \<Longrightarrow> do_basic_loop st operation b names = Inr b"
proof (induction names)
  case Nil
  then show ?case by simp
next
  case (Cons n names)
  then have "settled st operation n b" by simp
  then have "do_basic_loop st operation b (n # names) = do_basic_loop st operation b names"
    by (rule settled_step)
  also have "\<dots> = Inr b" using Cons by simp
  finally show ?case .
qed

lemma do_basic_idempotent:
  assumes "do_basic x st operation b = Inr b1"
  shows "do_basic x st operation b1 = Inr b1"
proof -
  from assms have l: "do_basic_loop st operation b (get_names x st (conflicts b)) = Inr b1"
    by (simp add: do_basic_def)
  from do_basic_loop_facts [OF l]
  have sh: "shape (conflicts b1) = shape (conflicts b)"
    and se: "\<forall>n \<in> set (get_names x st (conflicts b)). settled st operation n b1"
    by blast+
  from sh have "get_names x st (conflicts b1) = get_names x st (conflicts b)"
    by (rule get_names_shape)
  with se show ?thesis by (simp add: do_basic_def do_basic_loop_settled)
qed


text \<open>
  C4. A successful \<open>add_dimension\<close> call repeated with the same selectors changes
  nothing, and when the \<open>add\<close> list had no duplicate before, it then holds the conflict
  of each expanded name exactly once. \<open>_put_operation\<close> appends a payload under a kind
  only if the list of that kind does not hold it yet.
\<close>

theorem add_dimension_idempotent:
  assumes "add_dimension x b = Inr b1"
  shows "add_dimension x b1 = Inr b1
    \<and> (distinct (entries (operations b) ''add'') \<longrightarrow>
         (\<forall>n \<in> set (get_names x (StatusList [New, Changed]) (conflicts b)).
            \<forall>c b'. mark_as_solved n (StatusList [New, Changed]) b = Inr (c, b') \<longrightarrow>
              count_list (entries (operations b1) ''add'') (Single c) = 1))
    \<and> (\<forall>k p ops. entries (put_operation k p ops) k =
          (if p \<in> set (entries ops k) then entries ops k else entries ops k @ [p]))"
proof (intro conjI impI ballI allI)
  show "add_dimension x b1 = Inr b1"
    using assms unfolding add_dimension_def by (rule do_basic_idempotent)
next
  fix n c b'
  assume d: "distinct (entries (operations b) ''add'')"
    and n: "n \<in> set (get_names x (StatusList [New, Changed]) (conflicts b))"
    and m: "mark_as_solved n (StatusList [New, Changed]) b = Inr (c, b')"
  from assms have l: "do_basic_loop (StatusList [New, Changed]) ''add'' b
      (get_names x (StatusList [New, Changed]) (conflicts b)) = Inr b1"
    by (simp add: add_dimension_def do_basic_def)
  from do_basic_loop_facts [OF l] d n
  have sh: "shape (conflicts b1) = shape (conflicts b)"
    and di: "distinct (entries (operations b1) ''add'')"
    and se: "settled (StatusList [New, Changed]) ''add'' n b1"
    by blast+
  from mark_as_solved_Inr(1) [OF m] obtain idx found where
    a: "assert_has_status n (StatusList [New, Changed]) (conflicts b) = Inr (idx, found)"
    and c: "c = found ! idx" by blast
  from a sh have "assert_has_status n (StatusList [New, Changed]) (conflicts b1) = Inr (idx, found)"
    using assert_has_status_shape [of "conflicts b1" "conflicts b"] by simp
  with se c have "Single c \<in> set (entries (operations b1) ''add'')"
    by (simp add: settled_def)
  with di show "count_list (entries (operations b1) ''add'') (Single c) = 1"
    by (rule distinct_count_list_one)
next
  fix k p ops
  show "entries (put_operation k p ops) k =
          (if p \<in> set (entries ops k) then entries ops k else entries ops k @ [p])"
    by (rule entries_put_operation_same)
qed

theorem add_dimension_idempotent_witness:
  "add_dimension ''lr''
     \<lparr>experiment_space = [(''/lr'', \<lparr>name = ''/lr'', decl = ''0.1''\<rparr>),
                          (''/batch'', \<lparr>name = ''/batch'', decl = ''32''\<rparr>)],
      conflicting_space = [(''/lr'', \<lparr>name = ''/lr'', decl = ''0.2''\<rparr>)],
      conflicts = [Conflict Changed \<lparr>name = ''/lr'', decl = ''0.2''\<rparr>,
                   Conflict Missing \<lparr>name = ''/batch'', decl = ''32''\<rparr>],
      operations = []\<rparr>
   = Inr \<lparr>experiment_space = [(''/lr'', \<lparr>name = ''/lr'', decl = ''0.1''\<rparr>),
                          (''/batch'', \<lparr>name = ''/batch'', decl = ''32''\<rparr>)],
      conflicting_space = [(''/lr'', \<lparr>name = ''/lr'', decl = ''0.2''\<rparr>)],
      conflicts = [\<lparr>is_solved = True, dimension = \<lparr>name = ''/lr'', decl = ''0.2''\<rparr>, status = Changed\<rparr>,
                   Conflict Missing \<lparr>name = ''/batch'', decl = ''32''\<rparr>],
      operations = [(''add'', [Single 0])]\<rparr>
   \<and> add_dimension ''lr''
     \<lparr>experiment_space = [(''/lr'', \<lparr>name = ''/lr'', decl = ''0.1''\<rparr>),
                          (''/batch'', \<lparr>name = ''/batch'', decl = ''32''\<rparr>)],
      conflicting_space = [(''/lr'', \<lparr>name = ''/lr'', decl = ''0.2''\<rparr>)],
      conflicts = [\<lparr>is_solved = True, dimension = \<lparr>name = ''/lr'', decl = ''0.2''\<rparr>, status = Changed\<rparr>,
                   Conflict Missing \<lparr>name = ''/batch'', decl = ''32''\<rparr>],
      operations = [(''add'', [Single 0])]\<rparr>
   = Inr \<lparr>experiment_space = [(''/lr'', \<lparr>name = ''/lr'', decl = ''0.1''\<rparr>),
                          (''/batch'', \<lparr>name = ''/batch'', decl = ''32''\<rparr>)],
      conflicting_space = [(''/lr'', \<lparr>name = ''/lr'', decl = ''0.2''\<rparr>)],
      conflicts = [\<lparr>is_solved = True, dimension = \<lparr>name = ''/lr'', decl = ''0.2''\<rparr>, status = Changed\<rparr>,
                   Conflict Missing \<lparr>name = ''/batch'', decl = ''32''\<rparr>],
      operations = [(''add'', [Single 0])]\<rparr>
   \<and> count_list (entries [(''add'', [Single 0])] ''add'') (Single 0) = 1"
proof -
  let ?cs = "[Conflict Changed \<lparr>name = ''/lr'', decl = ''0.2''\<rparr>,
              Conflict Missing \<lparr>name = ''/batch'', decl = ''32''\<rparr>]"
  let ?cs1 = "[\<lparr>is_solved = True, dimension = \<lparr>name = ''/lr'', decl = ''0.2''\<rparr>, status = Changed\<rparr>,
               Conflict Missing \<lparr>name = ''/batch'', decl = ''32''\<rparr>]"
  let ?b = "\<lparr>experiment_space = [(''/lr'', \<lparr>name = ''/lr'', decl = ''0.1''\<rparr>),
                          (''/batch'', \<lparr>name = ''/batch'', decl = ''32''\<rparr>)],
      conflicting_space = [(''/lr'', \<lparr>name = ''/lr'', decl = ''0.2''\<rparr>)],
      conflicts = ?cs, operations = []\<rparr>"
  let ?b1 = "\<lparr>experiment_space = [(''/lr'', \<lparr>name = ''/lr'', decl = ''0.1''\<rparr>),
                          (''/batch'', \<lparr>name = ''/batch'', decl = ''32''\<rparr>)],
      conflicting_space = [(''/lr'', \<lparr>name = ''/lr'', decl = ''0.2''\<rparr>)],
      conflicts = ?cs1, operations = [(''add'', [Single 0])]\<rparr>"
  have h: "add_dimension ''lr'' ?b = Inr ?b1"
    by code_simp
  have d: "distinct (entries (operations ?b) ''add'')"
    by (simp add: entries_def)
  have n: "''lr'' \<in> set (get_names ''lr'' (StatusList [New, Changed]) (conflicts ?b))"
    by code_simp
  have m: "mark_as_solved ''lr'' (StatusList [New, Changed]) ?b
      = Inr (0, ?b\<lparr>conflicts := ?cs1\<rparr>)"
    by code_simp
  from add_dimension_idempotent [OF h] d n m
  have "add_dimension ''lr'' ?b1 = Inr ?b1"
    and "count_list (entries (operations ?b1) ''add'') (Single 0) = 1"
    by blast+
  with h show ?thesis by simp
qed

section \<open>Removing from the ledger\<close>

lemma rename_loop_no_mention:
  assumes "\<forall>p \<in> set l. is_tuple p \<and> \<not> mentions arg p"
  shows "rename_loop arg i cs l = Inr (cs, l)"
  using assms
proof (induction arg i cs l rule: rename_loop.induct)
  case (1 arg i cs l)
  show ?case
  proof (cases "i < length l")
    case False
    then show ?thesis by (subst rename_loop.simps) simp
  next
    case True
    then have "l ! i \<in> set l" by simp
    with "1.prems" obtain old new where t: "l ! i = Tuple old new" and n: "\<not> (arg = old \<or> arg = new)"
      by (cases "l ! i") auto
    from "1.IH"(2) [OF True t n "1.prems"] t n True show ?thesis
      by (subst rename_loop.simps) simp
  qed
qed

lemma rename_loop_single:
  assumes "distinct l"
    and "\<forall>p \<in> set l. is_tuple p"
    and "\<forall>p \<in> set l. mentions arg p \<longrightarrow> p = Tuple old new"
    and "Tuple old new \<in> set (drop i l)"
    and "mentions arg (Tuple old new)"
  shows "rename_loop arg i cs l
       = Inr (set_solved new False (set_solved old False cs), remove1 (Tuple old new) l)"
  using assms
proof (induction arg i cs l rule: rename_loop.induct)
  case (1 arg i cs l)
  from "1.prems"(4) have True: "i < length l" by (cases "i < length l") auto
  then have mem: "l ! i \<in> set l" by simp
  with "1.prems"(2) obtain x y where t: "l ! i = Tuple x y" by (cases "l ! i") auto
  show ?case
  proof (cases "arg = x \<or> arg = y")
    case True
    with t mem "1.prems"(3) have e: "l ! i = Tuple old new" by auto
    have "\<forall>p \<in> set (remove1 (Tuple old new) l). is_tuple p \<and> \<not> mentions arg p"
      using "1.prems"(1,2,3) by auto
    then have "rename_loop arg (Suc i) (set_solved new False (set_solved old False cs))
        (remove1 (Tuple old new) l)
      = Inr (set_solved new False (set_solved old False cs), remove1 (Tuple old new) l)"
      by (rule rename_loop_no_mention)
    with e True \<open>i < length l\<close> "1.prems"(5) show ?thesis
      by (subst rename_loop.simps) auto
  next
    case False
    with t "1.prems"(5) have ne: "l ! i \<noteq> Tuple old new" by auto
    have "drop i l = l ! i # drop (Suc i) l" using True by (simp add: Cons_nth_drop_Suc)
    with "1.prems"(4) ne have d: "Tuple old new \<in> set (drop (Suc i) l)" by auto
    from "1.IH"(2) [OF True t False "1.prems"(1,2,3) d "1.prems"(5)] t False True
    show ?thesis by (subst rename_loop.simps) simp
  qed
qed



lemma split_no_sep: "sep \<notin> set s \<Longrightarrow> split sep s = [s]"
  by (induction s) auto

lemma get_names_literal: "is_literal x \<Longrightarrow> get_names x st cs = [x]"
  by (simp add: is_literal_def get_names_def split_no_sep domIff)

lemma lookup_unique:
  assumes "distinct (map (\<lambda>c. name (dimension c)) cs)"
    and "assert_has_status n st cs = Inr (idx, found)"
    and "assert_has_status n st' cs = Inr (idx', found')"
  shows "found ! idx = found' ! idx'"
proof -
  note a = assert_has_status_InrD [OF assms(2)]
  note b = assert_has_status_InrD [OF assms(3)]
  have "map (\<lambda>c. name (dimension c)) cs ! (found ! idx)
      = map (\<lambda>c. name (dimension c)) cs ! (found' ! idx')"
    using a(2,4) b(2,4) by simp
  then show ?thesis
    using assms(1) a(2) b(2) by (simp add: nth_eq_iff_index_eq del: nth_map)
qed

lemma lookup_any_status:
  assumes "assert_has_status n st cs = Inr (idx, found)"
  shows "\<exists>idx' found'.
    assert_has_status n (StatusList [Missing, New, Changed]) cs = Inr (idx', found')"
proof -
  note a = assert_has_status_InrD [OF assms]
  have "status (cs ! (found ! idx)) \<in> set [Missing, New, Changed]"
    by (cases "status (cs ! (found ! idx))") simp_all
  with a(2,4) have "has_conflict n [Missing, New, Changed] cs"
    unfolding has_conflict_iff by blast
  then have "assert_has_status n (StatusList [Missing, New, Changed]) cs \<noteq> Inl ValueError"
    by (simp add: assert_has_status_fails_iff)
  then show ?thesis
    by (cases "assert_has_status n (StatusList [Missing, New, Changed]) cs")
      (auto dest: assert_has_status_Inl)
qed


text \<open>What \<open>reset_dimension\<close> does for a literal name, in terms of the conflict it finds.\<close>

lemma reset_dimension_literal:
  assumes "is_literal x"
    and "distinct (map (\<lambda>c. name (dimension c)) (conflicts b))"
    and "assert_has_status x st (conflicts b) = Inr (idx, found)"
  shows "reset_dimension x b =
    (case remove_from_operations (found ! idx) (set_solved (found ! idx) False (conflicts b))
            (operations b) of
       Inl e \<Rightarrow> Inl e
     | Inr (cs, ops) \<Rightarrow> Inr (b\<lparr>conflicts := cs, operations := ops\<rparr>))"
proof -
  from lookup_any_status [OF assms(3)] obtain idx' found' where
    a: "assert_has_status x (StatusList [Missing, New, Changed]) (conflicts b) = Inr (idx', found')"
    by blast
  from lookup_unique [OF assms(2) a assms(3)] have c: "found' ! idx' = found ! idx" .
  from a c have "mark_as x (StatusList [Missing, New, Changed]) False b
      = Inr (found ! idx, b\<lparr>conflicts := set_solved (found ! idx) False (conflicts b)\<rparr>)"
    by (simp add: mark_as_def set_solved_def Let_def)
  then show ?thesis
    by (simp add: reset_dimension_def Let_def get_names_literal [OF assms(1)] split: sum.splits)
qed


lemma names_shape:
  "map (\<lambda>c. name (dimension c)) cs = map (\<lambda>p. name (snd p)) (shape cs)"
  by (simp add: shape_def)


lemma entries_memD:
  assumes "p \<in> set (entries ops k)"
  shows "\<exists>l. map_of ops k = Some l \<and> (k, l) \<in> set ops \<and> p \<in> set l"
proof (cases "map_of ops k")
  case None
  with assms show ?thesis by (simp add: entries_def)
next
  case (Some l)
  with assms have "p \<in> set l" by (simp add: entries_def)
  with Some map_of_SomeD [OF Some] show ?thesis by simp
qed


section \<open>Adding, then resetting\<close>





section \<open>Renaming, then resetting\<close>

lemma set_solved_unsolve:
  "is_solved (set_solved c False cs ! i) \<Longrightarrow> is_solved (cs ! i)"
proof (cases "i = c")
  case True
  assume s: "is_solved (set_solved c False cs ! i)"
  show ?thesis
  proof (cases "c < length cs")
    case True
    with s \<open>i = c\<close> show ?thesis by (simp add: set_solved_nth)
  next
    case False
    then have "set_solved c False cs = cs" by (simp add: set_solved_def list_update_beyond)
    with s show ?thesis by simp
  qed
next
  case False
  then show "is_solved (set_solved c False cs ! i) \<Longrightarrow> is_solved (cs ! i)"
    by (simp add: set_solved_nth_other)
qed

lemma set_solved_unsolved_at:
  "c < length cs \<Longrightarrow> \<not> is_solved (set_solved c False cs ! c)"
  by (simp add: set_solved_nth)

lemma remove_from_operations_pair:
  assumes "\<forall>e \<in> set ops. \<forall>p \<in> set (snd e). is_tuple p = (fst e = ''rename'')"
    and "\<forall>e \<in> set ops. fst e = ''rename'' \<longrightarrow> snd e = L"
    and "distinct L"
    and "\<forall>p \<in> set L. mentions arg p \<longrightarrow> p = Tuple old new"
    and "Tuple old new \<in> set L"
    and "mentions arg (Tuple old new)"
  shows "\<exists>cs' ops'. remove_from_operations arg cs ops = Inr (cs', ops')
      \<and> length cs' = length cs
      \<and> (\<forall>i. is_solved (cs' ! i) \<longrightarrow> is_solved (cs ! i))
      \<and> (''rename'' \<in> set (map fst ops) \<longrightarrow>
           (old < length cs \<longrightarrow> \<not> is_solved (cs' ! old))
           \<and> (new < length cs \<longrightarrow> \<not> is_solved (cs' ! new)))
      \<and> map fst ops' = map fst ops
      \<and> (\<forall>e \<in> set ops'. fst e = ''rename'' \<longrightarrow> snd e = remove1 (Tuple old new) L)"
  using assms(1,2)
proof (induction ops arbitrary: cs)
  case Nil
  then show ?case by simp
next
  case (Cons e ops)
  obtain k l where e: "e = (k, l)" by (cases e)
  from Cons.prems have w: "\<forall>e \<in> set ops. \<forall>p \<in> set (snd e). is_tuple p = (fst e = ''rename'')"
    and r: "\<forall>e \<in> set ops. fst e = ''rename'' \<longrightarrow> snd e = L"
    by auto
  show ?case
  proof (cases "k = ''rename''")
    case True
    with Cons.prems(2) e have l: "l = L" by simp
    from Cons.prems(1) e True l have t: "\<forall>p \<in> set L. is_tuple p" by auto
    define cs1 where "cs1 = set_solved new False (set_solved old False cs)"
    have loop: "rename_loop arg 0 cs L = Inr (cs1, remove1 (Tuple old new) L)"
      unfolding cs1_def
      using assms(3) t assms(4) _ assms(6) by (rule rename_loop_single) (simp add: assms(5))
    from Cons.IH [OF w r, of cs1] obtain cs' ops' where
      ih: "remove_from_operations arg cs1 ops = Inr (cs', ops')"
        "length cs' = length cs1"
        "\<forall>i. is_solved (cs' ! i) \<longrightarrow> is_solved (cs1 ! i)"
        "map fst ops' = map fst ops"
        "\<forall>e \<in> set ops'. fst e = ''rename'' \<longrightarrow> snd e = remove1 (Tuple old new) L"
      by blast
    have len: "length cs1 = length cs" by (simp add: cs1_def)
    have mono: "is_solved (cs1 ! i) \<Longrightarrow> is_solved (cs ! i)" for i
      unfolding cs1_def by (blast dest: set_solved_unsolve)
    have o: "\<not> is_solved (cs1 ! old)" if "old < length cs"
    proof
      assume "is_solved (cs1 ! old)"
      then have "is_solved (set_solved old False cs ! old)"
        unfolding cs1_def by (rule set_solved_unsolve)
      with that show False by (simp add: set_solved_nth)
    qed
    have n: "\<not> is_solved (cs1 ! new)" if "new < length cs"
      unfolding cs1_def using that by (simp add: set_solved_nth)
    have res: "remove_from_operations arg cs (e # ops)
        = Inr (cs', (k, remove1 (Tuple old new) L) # ops')"
      using e True l loop ih(1) by simp
    show ?thesis
      unfolding res using ih(2,3,4,5) len mono o n True e by auto
  next
    case False
    show ?thesis
    proof (cases "Single arg \<in> set l")
      case True
      define cs1 where "cs1 = set_solved arg False cs"
      from Cons.IH [OF w r, of cs1] obtain cs' ops' where
        ih: "remove_from_operations arg cs1 ops = Inr (cs', ops')"
          "length cs' = length cs1"
          "\<forall>i. is_solved (cs' ! i) \<longrightarrow> is_solved (cs1 ! i)"
          "''rename'' \<in> set (map fst ops) \<longrightarrow>
             (old < length cs1 \<longrightarrow> \<not> is_solved (cs' ! old))
             \<and> (new < length cs1 \<longrightarrow> \<not> is_solved (cs' ! new))"
          "map fst ops' = map fst ops"
          "\<forall>e \<in> set ops'. fst e = ''rename'' \<longrightarrow> snd e = remove1 (Tuple old new) L"
        by blast
      have len: "length cs1 = length cs" by (simp add: cs1_def)
      have mono: "is_solved (cs1 ! i) \<Longrightarrow> is_solved (cs ! i)" for i
        unfolding cs1_def by (rule set_solved_unsolve)
      have res: "remove_from_operations arg cs (e # ops)
          = Inr (cs', (k, remove1 (Single arg) l) # ops')"
        using e False True ih(1) by (simp add: cs1_def)
      show ?thesis
        unfolding res using ih(2,3,4,5,6) len mono False e by auto
    next
      case n: False
      from Cons.IH [OF w r, of cs] obtain cs' ops' where
        ih: "remove_from_operations arg cs ops = Inr (cs', ops')"
          "length cs' = length cs"
          "\<forall>i. is_solved (cs' ! i) \<longrightarrow> is_solved (cs ! i)"
          "''rename'' \<in> set (map fst ops) \<longrightarrow>
             (old < length cs \<longrightarrow> \<not> is_solved (cs' ! old))
             \<and> (new < length cs \<longrightarrow> \<not> is_solved (cs' ! new))"
          "map fst ops' = map fst ops"
          "\<forall>e \<in> set ops'. fst e = ''rename'' \<longrightarrow> snd e = remove1 (Tuple old new) L"
        by blast
      have res: "remove_from_operations arg cs (e # ops) = Inr (cs', (k, l) # ops')"
        using e False n ih(1) by simp
      show ?thesis
        unfolding res using ih(2,3,4,5,6) False e by auto
    qed
  qed
qed


lemma wf_ledger_entries_distinct: "wf_ledger ops \<Longrightarrow> distinct (entries ops k)"
proof (cases "map_of ops k")
  case None
  then show ?thesis by (simp add: entries_def)
next
  case (Some l)
  assume "wf_ledger ops"
  with map_of_SomeD [OF Some] have "distinct l" by (auto simp: wf_ledger_def)
  with Some show ?thesis by (simp add: entries_def)
qed

lemma wf_ledger_entry:
  assumes "wf_ledger ops" and "e \<in> set ops"
  shows "snd e = entries ops (fst e)"
proof -
  from assms have "map_of ops (fst e) = Some (snd e)"
    by (simp add: wf_ledger_def)
  then show ?thesis by (simp add: entries_def)
qed

lemma put_operation_set:
  "e \<in> set (put_operation k p ops) \<Longrightarrow>
     e \<in> set ops \<or> (fst e = k \<and> set (snd e) \<subseteq> insert p (set (entries ops k))
        \<and> (distinct (entries ops k) \<longrightarrow> distinct (snd e)))"
  by (induction ops) (auto simp: entries_def split: if_splits)

lemma put_operation_wf:
  assumes "wf_ledger ops" and "is_tuple p = (k = ''rename'')"
  shows "wf_ledger (put_operation k p ops)"
proof -
  have keys: "distinct (map fst (put_operation k p ops))"
    using assms(1) by (simp add: put_operation_keys wf_ledger_def)
  have "distinct (snd e) \<and> (\<forall>q \<in> set (snd e). is_tuple q = (fst e = ''rename''))"
    if "e \<in> set (put_operation k p ops)" for e
  proof -
    from put_operation_set [OF that] show ?thesis
    proof
      assume "e \<in> set ops"
      with assms(1) show ?thesis by (simp add: wf_ledger_def)
    next
      assume h: "fst e = k \<and> set (snd e) \<subseteq> insert p (set (entries ops k))
        \<and> (distinct (entries ops k) \<longrightarrow> distinct (snd e))"
      have "is_tuple q = (k = ''rename'')" if "q \<in> set (entries ops k)" for q
      proof -
        from entries_memD [OF that] obtain l where "(k, l) \<in> set ops" "q \<in> set l" by blast
        with assms(1) show ?thesis unfolding wf_ledger_def by fastforce
      qed
      with h assms wf_ledger_entries_distinct [OF assms(1), of k] show ?thesis by auto
    qed
  qed
  with keys show ?thesis by (simp add: wf_ledger_def)
qed

lemma entries_key: "entries ops k \<noteq> [] \<Longrightarrow> k \<in> set (map fst ops)"
  by (cases "map_of ops k") (auto simp: entries_def dest: map_of_SomeD intro: rev_image_eqI)

text \<open>Resetting one side of a queued pair that is the only pair with that side.\<close>

lemma reset_pair:
  assumes lit: "is_literal x"
    and names: "distinct (map (\<lambda>c. name (dimension c)) (conflicts b1))"
    and wf: "wf_ledger (operations b1)"
    and look: "assert_has_status x st (conflicts b1) = Inr (idx, found)"
    and side: "found ! idx = i \<or> found ! idx = j"
    and queued: "Tuple i j \<in> set (entries (operations b1) ''rename'')"
    and only: "\<forall>p \<in> set (entries (operations b1) ''rename'').
                 mentions (found ! idx) p \<longrightarrow> p = Tuple i j"
    and bound: "i < length (conflicts b1)" "j < length (conflicts b1)"
  shows "\<exists>b2. reset_dimension x b1 = Inr b2
      \<and> \<not> is_solved (conflicts b2 ! i) \<and> \<not> is_solved (conflicts b2 ! j)
      \<and> Tuple i j \<notin> set (entries (operations b2) ''rename'')"
proof -
  let ?arg = "found ! idx"
  let ?L = "entries (operations b1) ''rename''"
  let ?cs = "set_solved ?arg False (conflicts b1)"
  have w: "\<forall>e \<in> set (operations b1). \<forall>p \<in> set (snd e). is_tuple p = (fst e = ''rename'')"
    using wf by (simp add: wf_ledger_def)
  have r: "\<forall>e \<in> set (operations b1). fst e = ''rename'' \<longrightarrow> snd e = ?L"
    using wf_ledger_entry [OF wf] by auto
  have d: "distinct ?L" using wf by (rule wf_ledger_entries_distinct)
  have m: "mentions ?arg (Tuple i j)" using side by auto
  from remove_from_operations_pair [OF w r d only queued m, of ?cs]
  obtain cs' ops' where
    rm: "remove_from_operations ?arg ?cs (operations b1) = Inr (cs', ops')"
    and len: "length cs' = length ?cs"
    and mono: "\<forall>k. is_solved (cs' ! k) \<longrightarrow> is_solved (?cs ! k)"
    and pair: "''rename'' \<in> set (map fst (operations b1)) \<longrightarrow>
           (i < length ?cs \<longrightarrow> \<not> is_solved (cs' ! i))
           \<and> (j < length ?cs \<longrightarrow> \<not> is_solved (cs' ! j))"
    and keys: "map fst ops' = map fst (operations b1)"
    and rest: "\<forall>e \<in> set ops'. fst e = ''rename'' \<longrightarrow> snd e = remove1 (Tuple i j) ?L"
    by blast
  define b2 where "b2 = b1\<lparr>conflicts := cs', operations := ops'\<rparr>"
  have reset: "reset_dimension x b1 = Inr b2"
    using reset_dimension_literal [OF lit names look] rm by (simp add: b2_def)
  have k: "''rename'' \<in> set (map fst (operations b1))"
    using queued by (intro entries_key) auto
  with pair bound have u: "\<not> is_solved (cs' ! i)" "\<not> is_solved (cs' ! j)" by simp_all
  have "Tuple i j \<notin> set (entries ops' ''rename'')"
  proof
    assume "Tuple i j \<in> set (entries ops' ''rename'')"
    from entries_memD [OF this] obtain l where "(''rename'', l) \<in> set ops'" "Tuple i j \<in> set l"
      by blast
    with rest have "Tuple i j \<in> set (remove1 (Tuple i j) ?L)" by fastforce
    with d show False by simp
  qed
  with reset u show ?thesis by (intro exI [of _ b2]) (simp add: b2_def)
qed


text \<open>
  C2, as amended. Let the literal names \<open>old\<close> and \<open>new\<close> bear a \<open>missing\<close> and a
  \<open>new\<close> conflict (in a builder whose conflicts have distinct names and whose ledger is
  well formed). Then \<open>rename_dimension\<close> resolves both conflicts and the \<open>rename\<close> list
  holds the pair exactly once, appended unless it was there. A \<open>reset_dimension\<close> on
  \<open>old\<close> after it makes both conflicts unresolved and removes the pair, provided
  no other queued pair refers to the conflict of \<open>old\<close>; likewise for \<open>new\<close>. Nothing is
  said about the other pairs that share a conflict with the one removed.
\<close>

theorem rename_then_reset:
  assumes "is_literal old" and "is_literal new" and "wf_builder b"
    and "assert_has_status old (StatusStr ''missing'') (conflicts b) = Inr (oi, ms)"
    and "assert_has_status new (StatusStr ''new'') (conflicts b) = Inr (ni, ns)"
  shows "\<exists>b1. rename_dimension (old, new) b = Inr b1
      \<and> is_solved (conflicts b1 ! (ms ! oi)) \<and> is_solved (conflicts b1 ! (ns ! ni))
      \<and> entries (operations b1) ''rename'' =
          (if Tuple (ms ! oi) (ns ! ni) \<in> set (entries (operations b) ''rename'')
           then entries (operations b) ''rename''
           else entries (operations b) ''rename'' @ [Tuple (ms ! oi) (ns ! ni)])
      \<and> count_list (entries (operations b1) ''rename'') (Tuple (ms ! oi) (ns ! ni)) = 1
      \<and> ((\<forall>p \<in> set (entries (operations b1) ''rename'').
             mentions (ms ! oi) p \<longrightarrow> p = Tuple (ms ! oi) (ns ! ni)) \<longrightarrow>
          (\<exists>b2. reset_dimension old b1 = Inr b2
             \<and> \<not> is_solved (conflicts b2 ! (ms ! oi)) \<and> \<not> is_solved (conflicts b2 ! (ns ! ni))
             \<and> Tuple (ms ! oi) (ns ! ni) \<notin> set (entries (operations b2) ''rename'')))
      \<and> ((\<forall>p \<in> set (entries (operations b1) ''rename'').
             mentions (ns ! ni) p \<longrightarrow> p = Tuple (ms ! oi) (ns ! ni)) \<longrightarrow>
          (\<exists>b2. reset_dimension new b1 = Inr b2
             \<and> \<not> is_solved (conflicts b2 ! (ms ! oi)) \<and> \<not> is_solved (conflicts b2 ! (ns ! ni))
             \<and> Tuple (ms ! oi) (ns ! ni) \<notin> set (entries (operations b2) ''rename'')))"
proof -
  let ?i = "ms ! oi" and ?j = "ns ! ni"
  note ao = assert_has_status_InrD [OF assms(4)]
  note an = assert_has_status_InrD [OF assms(5)]
  define b1 where "b1 = b\<lparr>conflicts := set_solved ?j True (set_solved ?i True (conflicts b)),
                          operations := put_operation ''rename'' (Tuple ?i ?j) (operations b)\<rparr>"
  have ren: "rename_dimension (old, new) b = Inr b1"
    using assms(4,5) by (simp add: rename_dimension_def b1_def Let_def)
  have si: "is_solved (conflicts b1 ! ?i)"
    using ao(2) by (simp add: b1_def set_solved_mono set_solved_nth)
  have sj: "is_solved (conflicts b1 ! ?j)"
    using an(2) by (simp add: b1_def set_solved_nth)
  have en: "entries (operations b1) ''rename'' =
          (if Tuple ?i ?j \<in> set (entries (operations b) ''rename'')
           then entries (operations b) ''rename''
           else entries (operations b) ''rename'' @ [Tuple ?i ?j])"
    by (simp add: b1_def entries_put_operation_same)
  have wfb: "wf_ledger (operations b)" using assms(3) by (simp add: wf_builder_def)
  have wf1: "wf_ledger (operations b1)"
    using put_operation_wf [OF wfb, of "Tuple ?i ?j" "''rename''"] by (simp add: b1_def)
  have q: "Tuple ?i ?j \<in> set (entries (operations b1) ''rename'')"
    by (simp add: en)
  have cnt: "count_list (entries (operations b1) ''rename'') (Tuple ?i ?j) = 1"
    using wf_ledger_entries_distinct [OF wf1] q by (rule distinct_count_list_one)
  have sh: "shape (conflicts b1) = shape (conflicts b)" by (simp add: b1_def)
  have d1: "distinct (map (\<lambda>c. name (dimension c)) (conflicts b1))"
    using assms(3) by (simp add: names_shape sh wf_builder_def)
  have lo: "assert_has_status old (StatusStr ''missing'') (conflicts b1) = Inr (oi, ms)"
    using assms(4) assert_has_status_shape [OF sh] by simp
  have ln: "assert_has_status new (StatusStr ''new'') (conflicts b1) = Inr (ni, ns)"
    using assms(5) assert_has_status_shape [OF sh] by simp
  have bi: "?i < length (conflicts b1)" using ao(2) by (simp add: b1_def)
  have bj: "?j < length (conflicts b1)" using an(2) by (simp add: b1_def)
  have ro: "\<exists>b2. reset_dimension old b1 = Inr b2
             \<and> \<not> is_solved (conflicts b2 ! ?i) \<and> \<not> is_solved (conflicts b2 ! ?j)
             \<and> Tuple ?i ?j \<notin> set (entries (operations b2) ''rename'')"
    if "\<forall>p \<in> set (entries (operations b1) ''rename''). mentions ?i p \<longrightarrow> p = Tuple ?i ?j"
    using assms(1) d1 wf1 lo _ q that bi bj by (rule reset_pair) simp
  have rn: "\<exists>b2. reset_dimension new b1 = Inr b2
             \<and> \<not> is_solved (conflicts b2 ! ?i) \<and> \<not> is_solved (conflicts b2 ! ?j)
             \<and> Tuple ?i ?j \<notin> set (entries (operations b2) ''rename'')"
    if "\<forall>p \<in> set (entries (operations b1) ''rename''). mentions ?j p \<longrightarrow> p = Tuple ?i ?j"
    using assms(2) d1 wf1 ln _ q that bi bj by (rule reset_pair) simp
  from ren si sj en cnt ro rn show ?thesis
    by (intro exI [of _ b1]) blast
qed

theorem rename_then_reset_witness:
  "is_literal ''batch'' \<and> is_literal ''newbatch''
   \<and> wf_builder
        \<lparr>experiment_space = [(''/batch'', \<lparr>name = ''/batch'', decl = ''32''\<rparr>)],
         conflicting_space = [(''/newbatch'', \<lparr>name = ''/newbatch'', decl = ''32''\<rparr>)],
         conflicts = [Conflict New \<lparr>name = ''/newbatch'', decl = ''32''\<rparr>,
                      Conflict Missing \<lparr>name = ''/batch'', decl = ''32''\<rparr>],
         operations = []\<rparr>
   \<and> assert_has_status ''batch'' (StatusStr ''missing'')
        [Conflict New \<lparr>name = ''/newbatch'', decl = ''32''\<rparr>,
         Conflict Missing \<lparr>name = ''/batch'', decl = ''32''\<rparr>] = Inr (0, [1])
   \<and> assert_has_status ''newbatch'' (StatusStr ''new'')
        [Conflict New \<lparr>name = ''/newbatch'', decl = ''32''\<rparr>,
         Conflict Missing \<lparr>name = ''/batch'', decl = ''32''\<rparr>] = Inr (0, [0])
   \<and> rename_dimension (''batch'', ''newbatch'')
        \<lparr>experiment_space = [(''/batch'', \<lparr>name = ''/batch'', decl = ''32''\<rparr>)],
         conflicting_space = [(''/newbatch'', \<lparr>name = ''/newbatch'', decl = ''32''\<rparr>)],
         conflicts = [Conflict New \<lparr>name = ''/newbatch'', decl = ''32''\<rparr>,
                      Conflict Missing \<lparr>name = ''/batch'', decl = ''32''\<rparr>],
         operations = []\<rparr>
       = Inr \<lparr>experiment_space = [(''/batch'', \<lparr>name = ''/batch'', decl = ''32''\<rparr>)],
         conflicting_space = [(''/newbatch'', \<lparr>name = ''/newbatch'', decl = ''32''\<rparr>)],
         conflicts = [\<lparr>is_solved = True, dimension = \<lparr>name = ''/newbatch'', decl = ''32''\<rparr>, status = New\<rparr>,
                      \<lparr>is_solved = True, dimension = \<lparr>name = ''/batch'', decl = ''32''\<rparr>, status = Missing\<rparr>],
         operations = [(''rename'', [Tuple 1 0])]\<rparr>
   \<and> (\<exists>b2. reset_dimension ''batch''
        \<lparr>experiment_space = [(''/batch'', \<lparr>name = ''/batch'', decl = ''32''\<rparr>)],
         conflicting_space = [(''/newbatch'', \<lparr>name = ''/newbatch'', decl = ''32''\<rparr>)],
         conflicts = [\<lparr>is_solved = True, dimension = \<lparr>name = ''/newbatch'', decl = ''32''\<rparr>, status = New\<rparr>,
                      \<lparr>is_solved = True, dimension = \<lparr>name = ''/batch'', decl = ''32''\<rparr>, status = Missing\<rparr>],
         operations = [(''rename'', [Tuple 1 0])]\<rparr> = Inr b2
        \<and> \<not> is_solved (conflicts b2 ! 1) \<and> \<not> is_solved (conflicts b2 ! 0)
        \<and> Tuple 1 0 \<notin> set (entries (operations b2) ''rename''))
   \<and> (\<exists>b2. reset_dimension ''newbatch''
        \<lparr>experiment_space = [(''/batch'', \<lparr>name = ''/batch'', decl = ''32''\<rparr>)],
         conflicting_space = [(''/newbatch'', \<lparr>name = ''/newbatch'', decl = ''32''\<rparr>)],
         conflicts = [\<lparr>is_solved = True, dimension = \<lparr>name = ''/newbatch'', decl = ''32''\<rparr>, status = New\<rparr>,
                      \<lparr>is_solved = True, dimension = \<lparr>name = ''/batch'', decl = ''32''\<rparr>, status = Missing\<rparr>],
         operations = [(''rename'', [Tuple 1 0])]\<rparr> = Inr b2
        \<and> \<not> is_solved (conflicts b2 ! 1) \<and> \<not> is_solved (conflicts b2 ! 0)
        \<and> Tuple 1 0 \<notin> set (entries (operations b2) ''rename''))"
proof -
  let ?cs = "[Conflict New \<lparr>name = ''/newbatch'', decl = ''32''\<rparr>,
              Conflict Missing \<lparr>name = ''/batch'', decl = ''32''\<rparr>]"
  let ?b = "\<lparr>experiment_space = [(''/batch'', \<lparr>name = ''/batch'', decl = ''32''\<rparr>)],
         conflicting_space = [(''/newbatch'', \<lparr>name = ''/newbatch'', decl = ''32''\<rparr>)],
         conflicts = ?cs, operations = []\<rparr>"
  let ?b1 = "\<lparr>experiment_space = [(''/batch'', \<lparr>name = ''/batch'', decl = ''32''\<rparr>)],
         conflicting_space = [(''/newbatch'', \<lparr>name = ''/newbatch'', decl = ''32''\<rparr>)],
         conflicts = [\<lparr>is_solved = True, dimension = \<lparr>name = ''/newbatch'', decl = ''32''\<rparr>, status = New\<rparr>,
                      \<lparr>is_solved = True, dimension = \<lparr>name = ''/batch'', decl = ''32''\<rparr>, status = Missing\<rparr>],
         operations = [(''rename'', [Tuple 1 0])]\<rparr>"
  have lo: "is_literal ''batch''" by (simp add: is_literal_def special_keywords_def)
  have ln: "is_literal ''newbatch''" by (simp add: is_literal_def special_keywords_def)
  have w: "wf_builder ?b" by (simp add: wf_builder_def wf_ledger_def)
  have ao: "assert_has_status ''batch'' (StatusStr ''missing'') (conflicts ?b) = Inr (0, [1])"
    by code_simp
  have an: "assert_has_status ''newbatch'' (StatusStr ''new'') (conflicts ?b) = Inr (0, [0])"
    by code_simp
  have r: "rename_dimension (''batch'', ''newbatch'') ?b = Inr ?b1" by code_simp
  from rename_then_reset [OF lo ln w ao an] obtain b1 where
    r1: "rename_dimension (''batch'', ''newbatch'') ?b = Inr b1"
    and o: "(\<forall>p \<in> set (entries (operations b1) ''rename'').
             mentions ([1] ! 0) p \<longrightarrow> p = Tuple ([1] ! 0) ([0] ! 0)) \<longrightarrow>
          (\<exists>b2. reset_dimension ''batch'' b1 = Inr b2
             \<and> \<not> is_solved (conflicts b2 ! ([1] ! 0)) \<and> \<not> is_solved (conflicts b2 ! ([0] ! 0))
             \<and> Tuple ([1] ! 0) ([0] ! 0) \<notin> set (entries (operations b2) ''rename''))"
    and n: "(\<forall>p \<in> set (entries (operations b1) ''rename'').
             mentions ([0] ! 0) p \<longrightarrow> p = Tuple ([1] ! 0) ([0] ! 0)) \<longrightarrow>
          (\<exists>b2. reset_dimension ''newbatch'' b1 = Inr b2
             \<and> \<not> is_solved (conflicts b2 ! ([1] ! 0)) \<and> \<not> is_solved (conflicts b2 ! ([0] ! 0))
             \<and> Tuple ([1] ! 0) ([0] ! 0) \<notin> set (entries (operations b2) ''rename''))"
    by blast
  from r r1 have b1: "b1 = ?b1" by simp
  from o have o': "\<exists>b2. reset_dimension ''batch'' ?b1 = Inr b2
        \<and> \<not> is_solved (conflicts b2 ! 1) \<and> \<not> is_solved (conflicts b2 ! 0)
        \<and> Tuple 1 0 \<notin> set (entries (operations b2) ''rename'')"
    unfolding b1 by (simp add: entries_def)
  from n have n': "\<exists>b2. reset_dimension ''newbatch'' ?b1 = Inr b2
        \<and> \<not> is_solved (conflicts b2 ! 1) \<and> \<not> is_solved (conflicts b2 ! 0)
        \<and> Tuple 1 0 \<notin> set (entries (operations b2) ''rename'')"
    unfolding b1 by (simp add: entries_def)
  from lo ln w ao an r o' n' show ?thesis by simp
qed


text \<open>
  C2 as stated says that the two conflicts of a rename payload are always both resolved or
  both unresolved. One conflict can be in two queued pairs: after renaming \<open>a\<close> to \<open>b\<close>
  and \<open>a\<close> to \<open>c\<close>, resetting \<open>b\<close> un-resolves \<open>a\<close> and \<open>b\<close> and removes their pair,
  and the pair of \<open>a\<close> and \<open>c\<close> stays queued with \<open>a\<close> unresolved and \<open>c\<close> resolved.
\<close>

theorem rename_shared_counterexample:
  "rename_dimension (''a'', ''b'')
     \<lparr>experiment_space = [(''/a'', \<lparr>name = ''/a'', decl = ''1''\<rparr>)],
      conflicting_space = [(''/b'', \<lparr>name = ''/b'', decl = ''1''\<rparr>), (''/c'', \<lparr>name = ''/c'', decl = ''1''\<rparr>)],
      conflicts = [Conflict New \<lparr>name = ''/b'', decl = ''1''\<rparr>, Conflict New \<lparr>name = ''/c'', decl = ''1''\<rparr>,
                   Conflict Missing \<lparr>name = ''/a'', decl = ''1''\<rparr>],
      operations = []\<rparr>
   = Inr \<lparr>experiment_space = [(''/a'', \<lparr>name = ''/a'', decl = ''1''\<rparr>)],
      conflicting_space = [(''/b'', \<lparr>name = ''/b'', decl = ''1''\<rparr>), (''/c'', \<lparr>name = ''/c'', decl = ''1''\<rparr>)],
      conflicts = [\<lparr>is_solved = True, dimension = \<lparr>name = ''/b'', decl = ''1''\<rparr>, status = New\<rparr>,
                   Conflict New \<lparr>name = ''/c'', decl = ''1''\<rparr>,
                   \<lparr>is_solved = True, dimension = \<lparr>name = ''/a'', decl = ''1''\<rparr>, status = Missing\<rparr>],
      operations = [(''rename'', [Tuple 2 0])]\<rparr>
   \<and> rename_dimension (''a'', ''c'')
     \<lparr>experiment_space = [(''/a'', \<lparr>name = ''/a'', decl = ''1''\<rparr>)],
      conflicting_space = [(''/b'', \<lparr>name = ''/b'', decl = ''1''\<rparr>), (''/c'', \<lparr>name = ''/c'', decl = ''1''\<rparr>)],
      conflicts = [\<lparr>is_solved = True, dimension = \<lparr>name = ''/b'', decl = ''1''\<rparr>, status = New\<rparr>,
                   Conflict New \<lparr>name = ''/c'', decl = ''1''\<rparr>,
                   \<lparr>is_solved = True, dimension = \<lparr>name = ''/a'', decl = ''1''\<rparr>, status = Missing\<rparr>],
      operations = [(''rename'', [Tuple 2 0])]\<rparr>
   = Inr \<lparr>experiment_space = [(''/a'', \<lparr>name = ''/a'', decl = ''1''\<rparr>)],
      conflicting_space = [(''/b'', \<lparr>name = ''/b'', decl = ''1''\<rparr>), (''/c'', \<lparr>name = ''/c'', decl = ''1''\<rparr>)],
      conflicts = [\<lparr>is_solved = True, dimension = \<lparr>name = ''/b'', decl = ''1''\<rparr>, status = New\<rparr>,
                   \<lparr>is_solved = True, dimension = \<lparr>name = ''/c'', decl = ''1''\<rparr>, status = New\<rparr>,
                   \<lparr>is_solved = True, dimension = \<lparr>name = ''/a'', decl = ''1''\<rparr>, status = Missing\<rparr>],
      operations = [(''rename'', [Tuple 2 0, Tuple 2 1])]\<rparr>
   \<and> reset_dimension ''b''
     \<lparr>experiment_space = [(''/a'', \<lparr>name = ''/a'', decl = ''1''\<rparr>)],
      conflicting_space = [(''/b'', \<lparr>name = ''/b'', decl = ''1''\<rparr>), (''/c'', \<lparr>name = ''/c'', decl = ''1''\<rparr>)],
      conflicts = [\<lparr>is_solved = True, dimension = \<lparr>name = ''/b'', decl = ''1''\<rparr>, status = New\<rparr>,
                   \<lparr>is_solved = True, dimension = \<lparr>name = ''/c'', decl = ''1''\<rparr>, status = New\<rparr>,
                   \<lparr>is_solved = True, dimension = \<lparr>name = ''/a'', decl = ''1''\<rparr>, status = Missing\<rparr>],
      operations = [(''rename'', [Tuple 2 0, Tuple 2 1])]\<rparr>
   = Inr \<lparr>experiment_space = [(''/a'', \<lparr>name = ''/a'', decl = ''1''\<rparr>)],
      conflicting_space = [(''/b'', \<lparr>name = ''/b'', decl = ''1''\<rparr>), (''/c'', \<lparr>name = ''/c'', decl = ''1''\<rparr>)],
      conflicts = [\<lparr>is_solved = False, dimension = \<lparr>name = ''/b'', decl = ''1''\<rparr>, status = New\<rparr>,
                   \<lparr>is_solved = True, dimension = \<lparr>name = ''/c'', decl = ''1''\<rparr>, status = New\<rparr>,
                   \<lparr>is_solved = False, dimension = \<lparr>name = ''/a'', decl = ''1''\<rparr>, status = Missing\<rparr>],
      operations = [(''rename'', [Tuple 2 1])]\<rparr>"
  by code_simp


section \<open>Resetting with a keyword selector\<close>

text \<open>
  C5 says that \<open>reset_dimension\<close> un-resolves the conflict of each expanded name
  and removes the ledger entries that refer to it. With the conflict \<open>/m\<close> resolved and
  queued under \<open>add\<close>, the selector \<open>~new\<close> expands to \<open>m\<close>, and the call raises
  \<open>ValueError\<close>: each round looks up the selector string itself, and no conflict is
  named \<open>/~new\<close>.
\<close>

theorem reset_dimension_keyword_raises:
  "reset_dimension ''~new''
     \<lparr>experiment_space = [], conflicting_space = [(''/m'', \<lparr>name = ''/m'', decl = ''0.9''\<rparr>)],
      conflicts = [\<lparr>is_solved = True, dimension = \<lparr>name = ''/m'', decl = ''0.9''\<rparr>, status = New\<rparr>],
      operations = [(''add'', [Single 0])]\<rparr> = Inl ValueError
   \<and> get_names ''~new'' (StatusList [Missing, New, Changed])
        [\<lparr>is_solved = True, dimension = \<lparr>name = ''/m'', decl = ''0.9''\<rparr>, status = New\<rparr>] = [''m'']"
  by code_simp

section \<open>The builder stays well formed\<close>

text \<open>
  The hypotheses of the theorems above hold of every builder the code can reach: conflict
  detection on built spaces gives a well-formed builder, and each successful resolution
  call keeps it well formed.
\<close>

lemma wf_builder_initial:
  assumes "wf_space parent" and "wf_space cand"
  shows "wf_builder \<lparr>experiment_space = parent, conflicting_space = cand,
                      conflicts = find_conflicts parent cand, operations = []\<rparr>"
  using find_conflicts_names_distinct [OF assms] by (simp add: wf_builder_def wf_ledger_def)

lemma wf_builder_shape:
  assumes "wf_builder b" and "shape (conflicts b1) = shape (conflicts b)"
    and "wf_ledger (operations b1)"
  shows "wf_builder b1"
  using assms by (simp add: wf_builder_def names_shape)

lemma do_basic_loop_wf:
  assumes "wf_builder b" and "operation \<noteq> ''rename''"
    and "do_basic_loop st operation b names = Inr b1"
  shows "wf_builder b1"
  using assms
proof (induction names arbitrary: b)
  case Nil
  then show ?case by simp
next
  case (Cons n names)
  from Cons.prems(3) obtain c b' where m: "mark_as_solved n st b = Inr (c, b')"
    by (auto split: sum.splits)
  define b2 where "b2 = b'\<lparr>operations := put_operation operation (Single c) (operations b')\<rparr>"
  from Cons.prems(3) m have l: "do_basic_loop st operation b2 names = Inr b1"
    by (simp add: b2_def)
  have sh: "shape (conflicts b2) = shape (conflicts b)"
    using mark_as_solved_Inr(2) [OF m] by (simp add: b2_def)
  have "wf_ledger (operations b)" using Cons.prems(1) by (simp add: wf_builder_def)
  then have "wf_ledger (put_operation operation (Single c) (operations b))"
    using Cons.prems(2) by (intro put_operation_wf) simp_all
  then have "wf_ledger (operations b2)"
    using mark_as_solved_Inr(2) [OF m] by (simp add: b2_def)
  with Cons.prems(1) sh have "wf_builder b2" by (rule wf_builder_shape)
  from Cons.IH [OF this Cons.prems(2) l] show ?case .
qed

lemma add_dimension_wf:
  "wf_builder b \<Longrightarrow> add_dimension x b = Inr b1 \<Longrightarrow> wf_builder b1"
  unfolding add_dimension_def do_basic_def by (rule do_basic_loop_wf) simp_all

lemma remove_dimension_wf:
  "wf_builder b \<Longrightarrow> remove_dimension x b = Inr b1 \<Longrightarrow> wf_builder b1"
  unfolding remove_dimension_def do_basic_def by (rule do_basic_loop_wf) simp_all

lemma rename_dimension_InrD:
  assumes "rename_dimension (old, new) b = Inr b1"
  shows "\<exists>oi ms ni ns.
      assert_has_status old (StatusStr ''missing'') (conflicts b) = Inr (oi, ms)
    \<and> assert_has_status new (StatusStr ''new'') (conflicts b) = Inr (ni, ns)
    \<and> b1 = b\<lparr>conflicts := set_solved (ns ! ni) True (set_solved (ms ! oi) True (conflicts b)),
               operations := put_operation ''rename'' (Tuple (ms ! oi) (ns ! ni)) (operations b)\<rparr>"
proof (cases "assert_has_status old (StatusStr ''missing'') (conflicts b)")
  case (Inl e)
  with assms show ?thesis by (simp add: rename_dimension_def)
next
  case o: (Inr r)
  obtain oi ms where r: "r = (oi, ms)" by (cases r)
  show ?thesis
  proof (cases "assert_has_status new (StatusStr ''new'') (conflicts b)")
    case (Inl e)
    with assms o r show ?thesis by (simp add: rename_dimension_def)
  next
    case n: (Inr q)
    obtain ni ns where q: "q = (ni, ns)" by (cases q)
    from assms o r n q show ?thesis by (simp add: rename_dimension_def Let_def)
  qed
qed

lemma rename_dimension_wf:
  assumes "wf_builder b" and "rename_dimension (old, new) b = Inr b1"
  shows "wf_builder b1"
proof -
  from rename_dimension_InrD [OF assms(2)] obtain oi ms ni ns where
    b1: "b1 = b\<lparr>conflicts := set_solved (ns ! ni) True (set_solved (ms ! oi) True (conflicts b)),
               operations := put_operation ''rename'' (Tuple (ms ! oi) (ns ! ni)) (operations b)\<rparr>"
    by blast
  have "wf_ledger (operations b)" using assms(1) by (simp add: wf_builder_def)
  then have "wf_ledger (put_operation ''rename'' (Tuple (ms ! oi) (ns ! ni)) (operations b))"
    by (rule put_operation_wf) simp
  then have wl: "wf_ledger (operations b1)" by (simp add: b1)
  have sh: "shape (conflicts b1) = shape (conflicts b)" by (simp add: b1)
  from assms(1) sh wl show ?thesis by (rule wf_builder_shape)
qed

lemma rename_loop_shrinks:
  assumes "rename_loop arg i cs l = Inr (cs', l')"
  shows "shape cs' = shape cs \<and> set l' \<subseteq> set l \<and> (distinct l \<longrightarrow> distinct l')"
  using assms
proof (induction arg i cs l rule: rename_loop.induct)
  case (1 arg i cs l)
  show ?case
  proof (cases "i < length l")
    case False
    with "1.prems" show ?thesis by (subst (asm) rename_loop.simps) simp
  next
    case True
    from "1.prems" True obtain old new where t: "l ! i = Tuple old new"
      by (subst (asm) rename_loop.simps) (cases "l ! i", auto)
    show ?thesis
    proof (cases "arg = old \<or> arg = new")
      case m: True
      from "1.prems" True t m
      have "rename_loop arg (Suc i) (set_solved new False (set_solved old False cs))
              (remove1 (l ! i) l) = Inr (cs', l')"
        by (subst (asm) rename_loop.simps) auto
      from "1.IH"(1) [OF True t m this] show ?thesis
        by (auto dest: notin_set_remove1 [THEN notE, rotated] set_remove1_subset [THEN subsetD])
    next
      case m: False
      from "1.prems" True t m have "rename_loop arg (Suc i) cs l = Inr (cs', l')"
        by (subst (asm) rename_loop.simps) auto
      from "1.IH"(2) [OF True t m this] show ?thesis .
    qed
  qed
qed

lemma remove_from_operations_shrinks:
  assumes "remove_from_operations arg cs ops = Inr (cs', ops')"
  shows "shape cs' = shape cs \<and> map fst ops' = map fst ops
    \<and> (\<forall>e' \<in> set ops'. \<exists>e \<in> set ops. fst e' = fst e \<and> set (snd e') \<subseteq> set (snd e)
          \<and> (distinct (snd e) \<longrightarrow> distinct (snd e')))"
  using assms
proof (induction ops arbitrary: cs cs' ops')
  case Nil
  then show ?case by simp
next
  case (Cons e ops)
  obtain k l where e: "e = (k, l)" by (cases e)
  show ?case
  proof (cases "k = ''rename''")
    case True
    from Cons.prems e True obtain cs1 l1 rest where
      loop: "rename_loop arg 0 cs l = Inr (cs1, l1)"
      and rec: "remove_from_operations arg cs1 ops = Inr (cs', rest)"
      and res: "ops' = (k, l1) # rest"
      by (auto split: sum.splits)
    from rename_loop_shrinks [OF loop] Cons.IH [OF rec] show ?thesis
      unfolding res e by auto
  next
    case False
    show ?thesis
    proof (cases "Single arg \<in> set l")
      case True
      from Cons.prems e False True obtain rest where
        rec: "remove_from_operations arg (set_solved arg False cs) ops = Inr (cs', rest)"
        and res: "ops' = (k, remove1 (Single arg) l) # rest"
        by (auto split: sum.splits)
      have "set (remove1 (Single arg) l) \<subseteq> set l" by (rule set_remove1_subset)
      with Cons.IH [OF rec] show ?thesis
        unfolding res e by auto
    next
      case n: False
      from Cons.prems e False n obtain rest where
        rec: "remove_from_operations arg cs ops = Inr (cs', rest)"
        and res: "ops' = (k, l) # rest"
        by (auto split: sum.splits)
      from Cons.IH [OF rec] show ?thesis
        unfolding res e by auto
    qed
  qed
qed

lemma remove_from_operations_wf:
  assumes "wf_ledger ops" and "remove_from_operations arg cs ops = Inr (cs', ops')"
  shows "wf_ledger ops'"
proof -
  note s = remove_from_operations_shrinks [OF assms(2)]
  have "distinct (snd e') \<and> (\<forall>p \<in> set (snd e'). is_tuple p = (fst e' = ''rename''))"
    if "e' \<in> set ops'" for e'
  proof -
    from s that obtain e where e: "e \<in> set ops" "fst e' = fst e" "set (snd e') \<subseteq> set (snd e)"
      "distinct (snd e) \<longrightarrow> distinct (snd e')" by blast
    with assms(1) show ?thesis unfolding wf_ledger_def by fastforce
  qed
  with s assms(1) show ?thesis by (simp add: wf_ledger_def)
qed

lemma reset_loop_wf:
  assumes "wf_builder b" and "reset_loop arg st b names = Inr b1"
  shows "wf_builder b1"
  using assms
proof (induction names arbitrary: b)
  case Nil
  then show ?case by simp
next
  case (Cons n names)
  from Cons.prems(2) obtain c b' cs ops where
    m: "mark_as arg st False b = Inr (c, b')"
    and r: "remove_from_operations c (conflicts b') (operations b') = Inr (cs, ops)"
    and l: "reset_loop arg st (b'\<lparr>conflicts := cs, operations := ops\<rparr>) names = Inr b1"
    by (auto split: sum.splits)
  from mark_as_Inr(2) [OF m] have b': "shape (conflicts b') = shape (conflicts b)"
    "operations b' = operations b" by simp_all
  from remove_from_operations_shrinks [OF r] b'
  have sh: "shape (conflicts (b'\<lparr>conflicts := cs, operations := ops\<rparr>)) = shape (conflicts b)"
    by simp
  have "wf_ledger (operations b')" using Cons.prems(1) b' by (simp add: wf_builder_def)
  then have "wf_ledger ops" using r by (rule remove_from_operations_wf)
  then have "wf_ledger (operations (b'\<lparr>conflicts := cs, operations := ops\<rparr>))" by simp
  with Cons.prems(1) sh have "wf_builder (b'\<lparr>conflicts := cs, operations := ops\<rparr>)"
    by (rule wf_builder_shape)
  from Cons.IH [OF this l] show ?case .
qed

lemma reset_dimension_wf:
  "wf_builder b \<Longrightarrow> reset_dimension x b = Inr b1 \<Longrightarrow> wf_builder b1"
  unfolding reset_dimension_def Let_def by (rule reset_loop_wf)

end
